theory Spec2Isabelle
  imports Main "HOL-Library.Word"
begin

section \<open>Result-set buffers: storage, emptiness, iteration\<close>

text \<open>
  A shallow embedding of the result-buffer code in
  \<^verbatim>\<open>QueryEngine/ResultSet.h\<close>, \<^verbatim>\<open>QueryEngine/ResultSetIteration.cpp\<close> and
  \<^verbatim>\<open>QueryEngine/Descriptors/QueryMemoryDescriptor.h\<close>.

  Conventions.
  \<^item> A failed \<^verbatim>\<open>CHECK\<close> / \<^verbatim>\<open>UNREACHABLE\<close> aborts the process: the model returns
    \<open>Inl CheckFailed\<close>. Dereferencing a null pointer and reading outside a buffer or a
    vector are undefined behaviour in C++: the model returns \<open>Inl NullPointer\<close> and
    \<open>Inl OutOfRange\<close>, so no theorem can rely on what happens there.
  \<^item> \<^verbatim>\<open>size_t\<close> counters and indices that count entries of a buffer are \<open>nat\<close>:
    they are bounded by the number of entries of a buffer that fits the address space, so
    they never wrap. The one place where the source subtracts from such a \<^verbatim>\<open>size_t\<close>
    that may be zero (\<^verbatim>\<open>make_bin_search\<close>) has the wrap-around written out. The
    OFFSET and LIMIT of a result set (\<^verbatim>\<open>drop_first_\<close>, \<^verbatim>\<open>keep_first_\<close>) are set by
    the caller to any \<^verbatim>\<open>size_t\<close>: they are 64-bit words, and their sum wraps.
  \<^item> A buffer is a list of bytes, a pointer into it is an offset. An integer of
    \<open>n\<close> bytes is read little-endian and two's complement, as on the platforms the
    code is built for, and is returned as its mathematical value.
\<close>

datatype error = CheckFailed | NullPointer | OutOfRange

subsection \<open>The layout descriptor\<close>

datatype QueryDescriptionType =
  GroupByPerfectHash | GroupByBaselineHash | Projection | TableFunction | NonGroupedAggregate

text \<open>
  The members of \<^verbatim>\<open>QueryMemoryDescriptor\<close> read by the code below. \<open>col_slot_context\<close>
  stands for the \<^verbatim>\<open>ColSlotContext\<close> member, whose class is declared elsewhere: all this
  code asks of it is the padded byte width of a slot.
\<close>

record QueryMemoryDescriptor =
  query_desc_type :: QueryDescriptionType
  keyless_hash :: bool
  idx_target_as_key :: int
  group_col_widths :: "int list"
  group_col_compact_width :: int
  entry_count :: nat
  output_columnar :: bool
  col_slot_context :: "nat \<Rightarrow> int"

definition getQueryDescriptionType :: "QueryMemoryDescriptor \<Rightarrow> QueryDescriptionType" where
  "getQueryDescriptionType qmd = query_desc_type qmd"

definition hasKeylessHash :: "QueryMemoryDescriptor \<Rightarrow> bool" where
  "hasKeylessHash qmd = keyless_hash qmd"

definition getTargetIdxForKey :: "QueryMemoryDescriptor \<Rightarrow> int" where
  "getTargetIdxForKey qmd = idx_target_as_key qmd"

definition getGroupbyColCount :: "QueryMemoryDescriptor \<Rightarrow> nat" where
  "getGroupbyColCount qmd = length (group_col_widths qmd)"

definition groupColWidth :: "QueryMemoryDescriptor \<Rightarrow> nat \<Rightarrow> error + int" where
  "groupColWidth qmd key_idx =
     (if key_idx < length (group_col_widths qmd) then Inr (group_col_widths qmd ! key_idx)
      else Inl CheckFailed)"

definition getEntryCount :: "QueryMemoryDescriptor \<Rightarrow> nat" where
  "getEntryCount qmd = entry_count qmd"

definition setEntryCount :: "QueryMemoryDescriptor \<Rightarrow> nat \<Rightarrow> QueryMemoryDescriptor" where
  "setEntryCount qmd val = qmd\<lparr>entry_count := val\<rparr>"

definition didOutputColumnar :: "QueryMemoryDescriptor \<Rightarrow> bool" where
  "didOutputColumnar qmd = output_columnar qmd"

text \<open>\<^verbatim>\<open>group_col_compact_width ? group_col_compact_width : sizeof(int64_t)\<close>\<close>

definition getEffectiveKeyWidth :: "QueryMemoryDescriptor \<Rightarrow> int" where
  "getEffectiveKeyWidth qmd =
     (if group_col_compact_width qmd \<noteq> 0 then group_col_compact_width qmd else 8)"

definition getPaddedSlotWidthBytes :: "QueryMemoryDescriptor \<Rightarrow> nat \<Rightarrow> int" where
  "getPaddedSlotWidthBytes qmd slot_idx = col_slot_context qmd slot_idx"

text \<open>
  \<^verbatim>\<open>static_cast<size_t>\<close> of an \<^verbatim>\<open>int8_t\<close>: a negative width becomes a huge
  unsigned number.
\<close>

definition size_t_of_int :: "int \<Rightarrow> nat" where
  "size_t_of_int w = nat (w mod 2 ^ 64)"

text \<open>The \<^verbatim>\<open>for\<close> loop of \<^verbatim>\<open>getPaddedColWidthForRange\<close>, over \<open>rng\<close> slots from slot \<open>offs\<close>.\<close>

primrec getPaddedColWidthForRange_loop ::
  "QueryMemoryDescriptor \<Rightarrow> nat \<Rightarrow> nat \<Rightarrow> nat \<Rightarrow> nat" where
  "getPaddedColWidthForRange_loop qmd i 0 ret = ret"
| "getPaddedColWidthForRange_loop qmd i (Suc n) ret =
     getPaddedColWidthForRange_loop qmd (Suc i) n
       (ret + size_t_of_int (getPaddedSlotWidthBytes qmd i))"

definition getPaddedColWidthForRange :: "QueryMemoryDescriptor \<Rightarrow> nat \<Rightarrow> nat \<Rightarrow> nat" where
  "getPaddedColWidthForRange qmd offs rng = getPaddedColWidthForRange_loop qmd offs rng 0"

definition get_byteoff_of_slot :: "nat \<Rightarrow> QueryMemoryDescriptor \<Rightarrow> nat" where
  "get_byteoff_of_slot slot_idx qmd = getPaddedColWidthForRange qmd 0 slot_idx"

subsection \<open>Targets and storage\<close>

datatype SQLAgg = kAVG | kMIN | kMAX | kSUM | kCOUNT

record TargetInfo =
  is_agg :: bool
  agg_kind :: SQLAgg

text \<open>
  \<^verbatim>\<open>ResultSetStorage\<close>: the descriptor, the buffer (\<open>None\<close> is the null pointer), the
  targets and their initial values.
\<close>

record ResultSetStorage =
  targets :: "TargetInfo list"
  query_mem_desc :: QueryMemoryDescriptor
  buff :: "8 word list option"
  target_init_vals :: "int list"

text \<open>
  \<^verbatim>\<open>ResultSet\<close>: the members read or written by the code below. The members
  \<open>crt_row_buff_idx\<close> and \<open>fetched_so_far\<close> are the cursor of \<^verbatim>\<open>getNextRow\<close>
  (\<^verbatim>\<open>mutable\<close> in the source): a function that moves the cursor returns the updated
  record. The descriptor of the result set itself is \<open>rs_query_mem_desc\<close>; each storage
  has a descriptor of its own. (Isabelle does not accept a name that ends with an
  underscore, so the members are written without it.)
\<close>

record ResultSet =
  rs_query_mem_desc :: QueryMemoryDescriptor
  storage :: "ResultSetStorage option"
  appended_storage :: "ResultSetStorage list"
  crt_row_buff_idx :: nat
  fetched_so_far :: nat
  drop_first :: "64 word"
  keep_first :: "64 word"
  permutation :: "nat list"
  separate_varlen_storage_valid :: bool
  explanation :: string
  just_explain :: bool

record StorageLookupResult =
  storage_ptr :: ResultSetStorage
  fixedup_entry_idx :: nat
  storage_idx :: nat

text \<open>
  A \<^verbatim>\<open>TargetValue\<close> is a decoded value, or a \<^verbatim>\<open>NullableString\<close>: the null string
  stands for a skipped target, and the explanation of an \<^verbatim>\<open>EXPLAIN\<close> result is a
  string.
\<close>

datatype 'tv TargetValue = Decoded 'tv | NullableString "string option"

subsection \<open>What the code uses from files that are not modelled\<close>

text \<open>
  The empty-key constants and the pointer arithmetic of the buffer geometry are defined in
  headers and translation units other than the three above. They are parameters of the
  model: every function below takes them in one record, and every theorem holds for all
  of them unless it says otherwise. The decoding of one target value
  (\<open>getTargetValueFromBuffer...\<close>) depends on dictionaries, lazily fetched columns and
  geometry payloads; it is a parameter as well, returning an abstract value \<open>'tv\<close>. The
  decoders are member functions of the result set; they never read or write the cursor of
  \<^verbatim>\<open>getNextRow\<close>, so their model takes the buffer and the arguments of the call.
\<close>

record 'tv Env =
  EMPTY_KEY_64 :: int
  EMPTY_KEY_32 :: int
  EMPTY_KEY_16 :: int
  EMPTY_KEY_8 :: int
  row_ptr_rowwise :: "QueryMemoryDescriptor \<Rightarrow> nat \<Rightarrow> nat"
  get_cols_ptr :: "QueryMemoryDescriptor \<Rightarrow> nat"
  advance_to_next_columnar_target_buff :: "nat \<Rightarrow> QueryMemoryDescriptor \<Rightarrow> nat \<Rightarrow> nat"
  advance_slot :: "nat \<Rightarrow> TargetInfo \<Rightarrow> bool \<Rightarrow> nat"
  getBufferColSlotCount :: "QueryMemoryDescriptor \<Rightarrow> nat"
  getPrependedGroupColOffInBytes :: "QueryMemoryDescriptor \<Rightarrow> nat \<Rightarrow> nat"
  key_bytes_with_padding :: "QueryMemoryDescriptor \<Rightarrow> nat"
  advance_target_ptr_row_wise ::
    "nat \<Rightarrow> TargetInfo \<Rightarrow> nat \<Rightarrow> QueryMemoryDescriptor \<Rightarrow> bool \<Rightarrow> nat"
  advance_target_ptr_col_wise ::
    "nat \<Rightarrow> TargetInfo \<Rightarrow> nat \<Rightarrow> QueryMemoryDescriptor \<Rightarrow> bool \<Rightarrow> nat"
  getTargetValueFromBufferRowwise ::
    "8 word list \<Rightarrow> nat \<Rightarrow> nat \<Rightarrow> nat \<Rightarrow> TargetInfo \<Rightarrow> nat \<Rightarrow> nat \<Rightarrow> bool \<Rightarrow> bool \<Rightarrow> bool
       \<Rightarrow> error + 'tv"
  getTargetValueFromBufferColwise ::
    "8 word list \<Rightarrow> nat \<Rightarrow> nat \<Rightarrow> QueryMemoryDescriptor \<Rightarrow> nat \<Rightarrow> nat \<Rightarrow> TargetInfo \<Rightarrow> nat
       \<Rightarrow> nat \<Rightarrow> bool \<Rightarrow> bool \<Rightarrow> error + 'tv"

subsection \<open>Reading integers from a buffer\<close>

fun le_unsigned :: "8 word list \<Rightarrow> nat" where
  "le_unsigned [] = 0"
| "le_unsigned (b # bs) = unat b + 256 * le_unsigned bs"

text \<open>\<^verbatim>\<open>*reinterpret_cast<const intN_t*>(ptr)\<close> for \<open>N = 8 * n\<close>.\<close>

definition load_int :: "8 word list option \<Rightarrow> nat \<Rightarrow> nat \<Rightarrow> error + int" where
  "load_int buf ptr n =
     (case buf of
        None \<Rightarrow> Inl NullPointer
      | Some bs \<Rightarrow>
          if ptr + n \<le> length bs then
            (let u = int (le_unsigned (take n (drop ptr bs)))
             in Inr (if u < 2 ^ (8 * n - 1) then u else u - 2 ^ (8 * n)))
          else Inl OutOfRange)"

text \<open>
  Modelled from the spec: \<^verbatim>\<open>read_int_from_buff\<close> is defined in a header that is not part
  of the modelled files. It reads the integer of the slot's byte width (8, 4, 2 or 1) at
  the pointer, sign-extended to 64 bits; no other width is a slot width.
\<close>

definition read_int_from_buff :: "8 word list option \<Rightarrow> nat \<Rightarrow> int \<Rightarrow> error + int" where
  "read_int_from_buff buf ptr compact_sz =
     (if compact_sz = 8 \<or> compact_sz = 4 \<or> compact_sz = 2 \<or> compact_sz = 1
      then load_int buf ptr (nat compact_sz)
      else Inl CheckFailed)"

text \<open>Comparing what was read with a constant: the error, if any, is passed on.\<close>

definition read_equals :: "error + int \<Rightarrow> int \<Rightarrow> error + bool" where
  "read_equals r c = (case r of Inl e \<Rightarrow> Inl e | Inr v \<Rightarrow> Inr (v = c))"

text \<open>
  What a buffer holds, as opposed to what the code reads: the \<open>n\<close> bytes of an unsigned
  number, least significant first; the \<open>n\<close> bytes of a signed integer in two's
  complement; and the statement that the \<open>w\<close> bytes at an offset of a buffer are the
  bytes of the integer \<open>v\<close>, for a width \<open>w\<close> of 8, 4, 2 or 1 bytes that can represent
  \<open>v\<close>.
\<close>

primrec le_bytes :: "nat \<Rightarrow> nat \<Rightarrow> 8 word list" where
  "le_bytes 0 u = []"
| "le_bytes (Suc n) u = of_nat (u mod 256) # le_bytes n (u div 256)"

definition int_bytes :: "nat \<Rightarrow> int \<Rightarrow> 8 word list" where
  "int_bytes n v = le_bytes n (nat (v mod 2 ^ (8 * n)))"

definition stores_int :: "8 word list option \<Rightarrow> nat \<Rightarrow> int \<Rightarrow> int \<Rightarrow> bool" where
  "stores_int buf ptr w v =
     (case buf of
        None \<Rightarrow> False
      | Some bs \<Rightarrow>
          (w = 8 \<or> w = 4 \<or> w = 2 \<or> w = 1) \<and>
          - (2 ^ (8 * nat w - 1)) \<le> v \<and> v < 2 ^ (8 * nat w - 1) \<and>
          ptr + nat w \<le> length bs \<and>
          take (nat w) (drop ptr bs) = int_bytes (nat w) v)"

subsection \<open>Emptiness of an entry\<close>

text \<open>
  \<^verbatim>\<open>advance_col_buff_to_slot\<close>: the start of the column of slot \<open>slot_idx\<close> in a columnar
  buffer. The loop runs over the targets; falling out of it is \<^verbatim>\<open>CHECK(false)\<close>.
\<close>

fun advance_col_buff_to_slot_loop ::
  "'tv Env \<Rightarrow> QueryMemoryDescriptor \<Rightarrow> nat \<Rightarrow> bool \<Rightarrow> TargetInfo list \<Rightarrow> nat \<Rightarrow> nat
     \<Rightarrow> error + nat" where
  "advance_col_buff_to_slot_loop E qmd slot_idx sep [] crt_col_ptr agg_col_idx = Inl CheckFailed"
| "advance_col_buff_to_slot_loop E qmd slot_idx sep (agg_info # rest) crt_col_ptr agg_col_idx =
     (if agg_col_idx = slot_idx then Inr crt_col_ptr
      else if \<not> agg_col_idx < getBufferColSlotCount E qmd then Inl CheckFailed
      else
        (let crt1 = advance_to_next_columnar_target_buff E crt_col_ptr qmd agg_col_idx
         in if is_agg agg_info \<and> agg_kind agg_info = kAVG then
              (if agg_col_idx + 1 = slot_idx then Inr crt1
               else advance_col_buff_to_slot_loop E qmd slot_idx sep rest
                      (advance_to_next_columnar_target_buff E crt1 qmd (agg_col_idx + 1))
                      (advance_slot E agg_col_idx agg_info sep))
            else advance_col_buff_to_slot_loop E qmd slot_idx sep rest crt1
                   (advance_slot E agg_col_idx agg_info sep)))"

definition advance_col_buff_to_slot ::
  "'tv Env \<Rightarrow> QueryMemoryDescriptor \<Rightarrow> TargetInfo list \<Rightarrow> nat \<Rightarrow> bool \<Rightarrow> error + nat" where
  "advance_col_buff_to_slot E qmd tgts slot_idx separate_varlen_storage =
     advance_col_buff_to_slot_loop E qmd slot_idx separate_varlen_storage tgts
       (get_cols_ptr E qmd) 0"

text \<open>\<^verbatim>\<open>ResultSetStorage::isEmptyEntryColumnar(entry_idx, buff)\<close>\<close>

definition isEmptyEntryColumnar ::
  "'tv Env \<Rightarrow> ResultSetStorage \<Rightarrow> nat \<Rightarrow> 8 word list option \<Rightarrow> error + bool" where
  "isEmptyEntryColumnar E s entry_idx buf =
     (let qmd = query_mem_desc s in
      if \<not> didOutputColumnar qmd then Inl CheckFailed
      else if getQueryDescriptionType qmd = NonGroupedAggregate then Inr False
      else if getQueryDescriptionType qmd = TableFunction then
        (if entry_idx < getEntryCount qmd then Inr False else Inl CheckFailed)
      else if hasKeylessHash qmd then
        (if getQueryDescriptionType qmd \<noteq> GroupByPerfectHash then Inl CheckFailed
         else if \<not> 0 \<le> getTargetIdxForKey qmd then Inl CheckFailed
         else if \<not> nat (getTargetIdxForKey qmd) < length (target_init_vals s) then Inl CheckFailed
         else
           (case advance_col_buff_to_slot E qmd (targets s) (nat (getTargetIdxForKey qmd)) False of
              Inl e \<Rightarrow> Inl e
            | Inr col_buff \<Rightarrow>
                (let entry_buff =
                       col_buff + entry_idx *
                         size_t_of_int (getPaddedSlotWidthBytes qmd (nat (getTargetIdxForKey qmd)))
                 in read_equals
                      (read_int_from_buff buf entry_buff
                         (getPaddedSlotWidthBytes qmd (nat (getTargetIdxForKey qmd))))
                      (target_init_vals s ! nat (getTargetIdxForKey qmd)))))
      else if getQueryDescriptionType qmd = Projection then
        read_equals (load_int buf (8 * entry_idx) 8) (EMPTY_KEY_64 E)
      else if \<not> getGroupbyColCount qmd > 0 then Inl CheckFailed
      else
        (let target_buff = getPrependedGroupColOffInBytes E qmd 0 in
         case groupColWidth qmd 0 of
           Inl e \<Rightarrow> Inl e
         | Inr w \<Rightarrow>
             if w = 8 then read_equals (load_int buf (target_buff + 8 * entry_idx) 8) (EMPTY_KEY_64 E)
             else if w = 4 then
               read_equals (load_int buf (target_buff + 4 * entry_idx) 4) (EMPTY_KEY_32 E)
             else if w = 2 then
               read_equals (load_int buf (target_buff + 2 * entry_idx) 2) (EMPTY_KEY_16 E)
             else if w = 1 then
               read_equals (load_int buf (target_buff + entry_idx) 1) (EMPTY_KEY_8 E)
             else Inl CheckFailed))"

text \<open>\<^verbatim>\<open>ResultSetStorage::isEmptyEntry(entry_idx, buff)\<close>\<close>

definition isEmptyEntry_buff ::
  "'tv Env \<Rightarrow> ResultSetStorage \<Rightarrow> nat \<Rightarrow> 8 word list option \<Rightarrow> error + bool" where
  "isEmptyEntry_buff E s entry_idx buf =
     (let qmd = query_mem_desc s in
      if NonGroupedAggregate = getQueryDescriptionType qmd then Inr False
      else if didOutputColumnar qmd then isEmptyEntryColumnar E s entry_idx buf
      else if hasKeylessHash qmd then
        (if getQueryDescriptionType qmd \<noteq> GroupByPerfectHash then Inl CheckFailed
         else if \<not> 0 \<le> getTargetIdxForKey qmd then Inl CheckFailed
         else if \<not> nat (getTargetIdxForKey qmd) < length (target_init_vals s) then Inl CheckFailed
         else
           (let rowwise_target_ptr = row_ptr_rowwise E qmd entry_idx;
                target_slot_off = get_byteoff_of_slot (nat (getTargetIdxForKey qmd)) qmd
            in read_equals
                 (read_int_from_buff buf (rowwise_target_ptr + target_slot_off)
                    (getPaddedSlotWidthBytes qmd (nat (getTargetIdxForKey qmd))))
                 (target_init_vals s ! nat (getTargetIdxForKey qmd))))
      else
        (let keys_ptr = row_ptr_rowwise E qmd entry_idx in
         if getEffectiveKeyWidth qmd = 4 then
           (if QueryDescriptionType.GroupByPerfectHash = getQueryDescriptionType qmd
            then Inl CheckFailed
            else read_equals (load_int buf keys_ptr 4) (EMPTY_KEY_32 E))
         else if getEffectiveKeyWidth qmd = 8 then
           read_equals (load_int buf keys_ptr 8) (EMPTY_KEY_64 E)
         else Inl CheckFailed))"

text \<open>\<^verbatim>\<open>ResultSetStorage::isEmptyEntry(entry_idx)\<close>: on the storage's own buffer.\<close>

definition isEmptyEntry :: "'tv Env \<Rightarrow> ResultSetStorage \<Rightarrow> nat \<Rightarrow> error + bool" where
  "isEmptyEntry E s entry_idx = isEmptyEntry_buff E s entry_idx (buff s)"


subsection \<open>The spec's notion of an empty entry\<close>

text \<open>
  The spec: an entry is empty iff its key tuple equals a reserved sentinel (the 64/32/16/8
  bit empty-key constant) or, for keyless layouts, iff the designated key-target slot
  equals its reserved init value. The definitions below follow these words; they are
  compared with \<open>isEmptyEntry\<close>, which follows the source.

  The key width of a layout: the effective key width in a row-wise buffer; in a columnar
  buffer the width of the first group column, and 8 bytes for a projection.
\<close>

definition layout_key_width :: "QueryMemoryDescriptor \<Rightarrow> int" where
  "layout_key_width qmd =
     (if \<not> output_columnar qmd then getEffectiveKeyWidth qmd
      else if query_desc_type qmd = Projection then 8
      else if group_col_widths qmd = [] then 0
      else group_col_widths qmd ! 0)"

definition empty_key_sentinel :: "'tv Env \<Rightarrow> int \<Rightarrow> int" where
  "empty_key_sentinel E w =
     (if w = 8 then EMPTY_KEY_64 E else if w = 4 then EMPTY_KEY_32 E
      else if w = 2 then EMPTY_KEY_16 E else EMPTY_KEY_8 E)"

text \<open>
  The first component of the key of entry \<open>entry_idx\<close>: inline at the start of the row in
  a row-wise buffer, in the leading key column in a columnar one.
\<close>

definition first_key :: "'tv Env \<Rightarrow> ResultSetStorage \<Rightarrow> nat \<Rightarrow> error + int" where
  "first_key E s entry_idx =
     (let qmd = query_mem_desc s; w = layout_key_width qmd in
      if \<not> (w = 8 \<or> w = 4 \<or> w = 2 \<or> w = 1) then Inl CheckFailed
      else if \<not> output_columnar qmd then
        load_int (buff s) (row_ptr_rowwise E qmd entry_idx) (nat w)
      else if query_desc_type qmd = Projection then
        load_int (buff s) (nat w * entry_idx) (nat w)
      else
        load_int (buff s) (getPrependedGroupColOffInBytes E qmd 0 + nat w * entry_idx) (nat w))"

text \<open>The designated key-target slot of entry \<open>entry_idx\<close> in a keyless layout.\<close>

definition key_target_slot :: "'tv Env \<Rightarrow> ResultSetStorage \<Rightarrow> nat \<Rightarrow> error + int" where
  "key_target_slot E s entry_idx =
     (let qmd = query_mem_desc s;
          slot_idx = nat (idx_target_as_key qmd);
          w = getPaddedSlotWidthBytes qmd slot_idx
      in if \<not> output_columnar qmd then
           read_int_from_buff (buff s)
             (row_ptr_rowwise E qmd entry_idx + get_byteoff_of_slot slot_idx qmd) w
         else
           (case advance_col_buff_to_slot E qmd (targets s) slot_idx False of
              Inl e \<Rightarrow> Inl e
            | Inr col_buff \<Rightarrow>
                read_int_from_buff (buff s) (col_buff + entry_idx * size_t_of_int w) w))"

definition spec_isEmptyEntry :: "'tv Env \<Rightarrow> ResultSetStorage \<Rightarrow> nat \<Rightarrow> error + bool" where
  "spec_isEmptyEntry E s entry_idx =
     (if keyless_hash (query_mem_desc s) then
        read_equals (key_target_slot E s entry_idx)
          (target_init_vals s ! nat (idx_target_as_key (query_mem_desc s)))
      else
        read_equals (first_key E s entry_idx)
          (empty_key_sentinel E (layout_key_width (query_mem_desc s))))"

text \<open>
  The condition under which no checked assertion of \<^verbatim>\<open>isEmptyEntry(entry_idx)\<close> or
  \<^verbatim>\<open>isEmptyEntryColumnar(entry_idx)\<close> fires, read off the \<^verbatim>\<open>CHECK\<close>s along each path of
  the two functions. A NonGroupedAggregate layout returns before any of them. A columnar
  TableFunction layout checks the entry index against the entry count and nothing else. A
  keyless layout must be a perfect hash whose key-target index has an init value. A
  row-wise key is 8 bytes wide, or 4 bytes wide outside perfect hash. A columnar
  projection has no check; any other columnar layout has a first group column of 8, 4, 2
  or 1 bytes.
\<close>

definition checks_pass :: "ResultSetStorage \<Rightarrow> nat \<Rightarrow> bool" where
  "checks_pass s entry_idx =
     (let qmd = query_mem_desc s in
      if query_desc_type qmd = NonGroupedAggregate then True
      else if output_columnar qmd \<and> query_desc_type qmd = TableFunction then
        entry_idx < entry_count qmd
      else if keyless_hash qmd then
        query_desc_type qmd = GroupByPerfectHash \<and> 0 \<le> idx_target_as_key qmd \<and>
        nat (idx_target_as_key qmd) < length (target_init_vals s)
      else if \<not> output_columnar qmd then
        getEffectiveKeyWidth qmd = 8 \<or>
        (getEffectiveKeyWidth qmd = 4 \<and> query_desc_type qmd \<noteq> GroupByPerfectHash)
      else if query_desc_type qmd = Projection then True
      else
        group_col_widths qmd \<noteq> [] \<and>
        (group_col_widths qmd ! 0 = 8 \<or> group_col_widths qmd ! 0 = 4 \<or>
         group_col_widths qmd ! 0 = 2 \<or> group_col_widths qmd ! 0 = 1))"

text \<open>
  The logical content of a buffer, as far as emptiness goes: one item per entry, \<open>None\<close>
  for an absent entry and \<open>Some v\<close> for a present one, \<open>v\<close> being the value of the field
  that tells the two apart (the first key component, or the key-target slot of a keyless
  layout). A buffer encodes that content in its own layout: the bytes of the field lie at
  the place and in the width of the storage's layout, an absent entry carries the
  layout's own mark (the empty-key sentinel of the layout's key width, or the init value
  of the key-target slot), and a present entry carries \<open>v\<close>, which is not the mark. Two
  buffers hold equivalent logical data when they encode the same list of items; their
  layouts, key widths and marks may differ.
\<close>

definition empty_mark :: "'tv Env \<Rightarrow> ResultSetStorage \<Rightarrow> int" where
  "empty_mark E s =
     (if keyless_hash (query_mem_desc s)
      then target_init_vals s ! nat (idx_target_as_key (query_mem_desc s))
      else empty_key_sentinel E (layout_key_width (query_mem_desc s)))"

text \<open>
  The offset and the byte width of the field: the key-target slot of the row or of the
  slot's column in a keyless layout; otherwise the start of the row in a row-wise buffer
  and the entry's cell of the leading key column in a columnar one.
\<close>

definition deciding_place :: "'tv Env \<Rightarrow> ResultSetStorage \<Rightarrow> nat \<Rightarrow> error + nat \<times> int" where
  "deciding_place E s entry_idx =
     (let qmd = query_mem_desc s in
      if keyless_hash qmd then
        (let slot_idx = nat (idx_target_as_key qmd);
             w = getPaddedSlotWidthBytes qmd slot_idx
         in if \<not> output_columnar qmd then
              Inr (row_ptr_rowwise E qmd entry_idx + get_byteoff_of_slot slot_idx qmd, w)
            else
              (case advance_col_buff_to_slot E qmd (targets s) slot_idx False of
                 Inl e \<Rightarrow> Inl e
               | Inr col_buff \<Rightarrow> Inr (col_buff + entry_idx * size_t_of_int w, w)))
      else
        (let w = layout_key_width qmd
         in if \<not> output_columnar qmd then Inr (row_ptr_rowwise E qmd entry_idx, w)
            else if query_desc_type qmd = Projection then Inr (nat w * entry_idx, w)
            else Inr (getPrependedGroupColOffInBytes E qmd 0 + nat w * entry_idx, w)))"

definition encodes_entry :: "'tv Env \<Rightarrow> ResultSetStorage \<Rightarrow> nat \<Rightarrow> int option \<Rightarrow> bool" where
  "encodes_entry E s entry_idx entry =
     (case deciding_place E s entry_idx of
        Inl e \<Rightarrow> False
      | Inr (ptr, w) \<Rightarrow>
          (case entry of
             None \<Rightarrow> stores_int (buff s) ptr w (empty_mark E s)
           | Some v \<Rightarrow> v \<noteq> empty_mark E s \<and> stores_int (buff s) ptr w v))"

definition holds_entries :: "'tv Env \<Rightarrow> ResultSetStorage \<Rightarrow> int option list \<Rightarrow> bool" where
  "holds_entries E s es =
     (length es = getEntryCount (query_mem_desc s) \<and>
      (\<forall>entry_idx<length es. encodes_entry E s entry_idx (es ! entry_idx)))"

subsection \<open>Binary search for the first empty entry\<close>

text \<open>
  The \<^verbatim>\<open>while (l != r)\<close> loop of \<^verbatim>\<open>make_bin_search\<close>. Nothing in the loop itself
  makes it stop when \<open>l > r\<close>, so it is a partial function: \<open>None\<close> is a run that
  never returns.
\<close>

partial_function (option) make_bin_search_loop ::
  "(nat \<Rightarrow> error + bool) \<Rightarrow> nat \<Rightarrow> nat \<Rightarrow> (error + nat) option" where
  "make_bin_search_loop is_empty_fn l r =
     (if l = r then Some (Inr r)
      else
        (case is_empty_fn ((l + r) div 2) of
           Inl e \<Rightarrow> Some (Inl e)
         | Inr b \<Rightarrow>
             if b then make_bin_search_loop is_empty_fn l ((l + r) div 2)
             else make_bin_search_loop is_empty_fn ((l + r) div 2 + 1) r))"

text \<open>\<^verbatim>\<open>r - 1\<close> on a \<^verbatim>\<open>size_t\<close>: zero wraps around.\<close>

definition size_t_pred :: "nat \<Rightarrow> nat" where
  "size_t_pred r = (if r = 0 then 2 ^ 64 - 1 else r - 1)"

definition make_bin_search ::
  "nat \<Rightarrow> nat \<Rightarrow> (nat \<Rightarrow> error + bool) \<Rightarrow> (error + nat) option" where
  "make_bin_search l r is_empty_fn =
     (case is_empty_fn (size_t_pred r) of
        Inl e \<Rightarrow> Some (Inl e)
      | Inr b \<Rightarrow>
          if \<not> b then Some (Inr r)
          else make_bin_search_loop is_empty_fn l (size_t_pred r))"

text \<open>\<^verbatim>\<open>ResultSetStorage::binSearchRowCount\<close>, with its two lambdas.\<close>

definition binSearchRowCount :: "'tv Env \<Rightarrow> ResultSetStorage \<Rightarrow> (error + nat) option" where
  "binSearchRowCount E s =
     (let qmd = query_mem_desc s in
      if getQueryDescriptionType qmd \<noteq> Projection then Some (Inl CheckFailed)
      else if getEffectiveKeyWidth qmd \<noteq> 8 then Some (Inl CheckFailed)
      else if getEntryCount qmd = 0 then Some (Inr 0)
      else if didOutputColumnar qmd then
        make_bin_search 0 (getEntryCount qmd)
          (\<lambda>idx. read_equals (load_int (buff s) (8 * idx) 8) (EMPTY_KEY_64 E))
      else
        make_bin_search 0 (getEntryCount qmd)
          (\<lambda>idx. read_equals (load_int (buff s) (row_ptr_rowwise E qmd idx) 8) (EMPTY_KEY_64 E)))"

subsection \<open>The result set: entry count and storage lookup\<close>

definition entryCount :: "ResultSet \<Rightarrow> nat" where
  "entryCount rs =
     (if permutation rs = [] then getEntryCount (rs_query_mem_desc rs)
      else length (permutation rs))"

text \<open>
  Modelled from the spec: \<^verbatim>\<open>ResultSet::getStorageIndex\<close> is declared in
  \<^verbatim>\<open>ResultSet.h\<close> and defined in a translation unit that is not part of the modelled
  files. The spec: entry \<open>i\<close> of the combined sequence resolves to the primary storage
  if \<open>i < primary.entryCount\<close>, else into successive appended storages; storage ordinal
  0 is the primary storage, \<open>n\<close> is \<open>appended[n - 1]\<close>; an invalid storage lookup index
  is a fatal defect.
\<close>

fun getStorageIndex_loop :: "ResultSetStorage list \<Rightarrow> nat \<Rightarrow> nat \<Rightarrow> error + nat \<times> nat" where
  "getStorageIndex_loop [] i fixedup = Inl CheckFailed"
| "getStorageIndex_loop (s # rest) i fixedup =
     (if fixedup < getEntryCount (query_mem_desc s) then Inr (i + 1, fixedup)
      else getStorageIndex_loop rest (i + 1) (fixedup - getEntryCount (query_mem_desc s)))"

definition getStorageIndex :: "ResultSet \<Rightarrow> nat \<Rightarrow> error + nat \<times> nat" where
  "getStorageIndex rs entry_idx =
     (case storage rs of
        None \<Rightarrow> Inl NullPointer
      | Some s0 \<Rightarrow>
          if entry_idx < getEntryCount (query_mem_desc s0) then Inr (0, entry_idx)
          else getStorageIndex_loop (appended_storage rs) 0
                 (entry_idx - getEntryCount (query_mem_desc s0)))"

text \<open>
  Modelled from the spec: \<^verbatim>\<open>ResultSet::findStorage\<close> is declared in \<^verbatim>\<open>ResultSet.h\<close>
  and defined with \<^verbatim>\<open>getStorageIndex\<close>. The spec: a storage lookup result is
  (storage pointer, local entry index, storage ordinal).
\<close>

definition findStorage :: "ResultSet \<Rightarrow> nat \<Rightarrow> error + StorageLookupResult" where
  "findStorage rs entry_idx =
     (case getStorageIndex rs entry_idx of
        Inl e \<Rightarrow> Inl e
      | Inr (stg_idx, fixedup) \<Rightarrow>
          (if stg_idx = 0 then
             (case storage rs of
                None \<Rightarrow> Inl NullPointer
              | Some s0 \<Rightarrow>
                  Inr \<lparr>storage_ptr = s0, fixedup_entry_idx = fixedup, storage_idx = stg_idx\<rparr>)
           else if stg_idx - 1 < length (appended_storage rs) then
             Inr \<lparr>storage_ptr = appended_storage rs ! (stg_idx - 1),
                  fixedup_entry_idx = fixedup, storage_idx = stg_idx\<rparr>
           else Inl OutOfRange))"

text \<open>
  The number of entries that precede appended storage \<open>k\<close> in the combined sequence:
  those of the primary storage and of the appended storages before it.
\<close>

definition entries_before :: "ResultSet \<Rightarrow> nat \<Rightarrow> nat" where
  "entries_before rs k =
     (case storage rs of None \<Rightarrow> 0 | Some s0 \<Rightarrow> getEntryCount (query_mem_desc s0))
     + sum_list (map (\<lambda>s. getEntryCount (query_mem_desc s)) (take k (appended_storage rs)))"

text \<open>
  The number of entries of all storages together, and the condition under which every
  index the result set hands to the storage lookup resolves: the primary storage is
  allocated, the entry count of the result set's descriptor does not exceed the entries
  the storages hold, and every entry index of the permutation is one of these entries.
\<close>

definition total_entries :: "ResultSet \<Rightarrow> nat" where
  "total_entries rs = entries_before rs (length (appended_storage rs))"

definition lookup_invariant :: "ResultSet \<Rightarrow> bool" where
  "lookup_invariant rs =
     (storage rs \<noteq> None \<and>
      getEntryCount (rs_query_mem_desc rs) \<le> total_entries rs \<and>
      list_all (\<lambda>entry_idx. entry_idx < total_entries rs) (permutation rs))"

text \<open>\<^verbatim>\<open>permutation_.empty() ? logical_index : permutation_[logical_index]\<close>\<close>

definition permuted_idx :: "ResultSet \<Rightarrow> nat \<Rightarrow> error + nat" where
  "permuted_idx rs logical_index =
     (if permutation rs = [] then Inr logical_index
      else if logical_index < length (permutation rs) then Inr (permutation rs ! logical_index)
      else Inl OutOfRange)"


subsection \<open>Materialising a row\<close>

text \<open>
  The loop over the targets in \<^verbatim>\<open>ResultSet::getRowAt(global_entry_idx, ...)\<close>. It
  threads the target index, the slot index \<open>agg_col_idx\<close> and the running pointer
  (\<^verbatim>\<open>crt_col_ptr\<close> in a columnar buffer, \<^verbatim>\<open>rowwise_target_ptr\<close> in a row-wise one).
\<close>

fun getRowAt_loop ::
  "'tv Env \<Rightarrow> ResultSet \<Rightarrow> ResultSetStorage \<Rightarrow> 8 word list \<Rightarrow> nat \<Rightarrow> nat \<Rightarrow> bool \<Rightarrow> bool \<Rightarrow> bool
     \<Rightarrow> bool list \<Rightarrow> nat \<Rightarrow> TargetInfo list \<Rightarrow> nat \<Rightarrow> nat \<Rightarrow> nat
     \<Rightarrow> error + 'tv TargetValue list" where
  "getRowAt_loop E rs st bs local_entry_idx global_entry_idx translate_strings decimal_to_double
     fixup targets_to_skip keys_ptr [] target_idx agg_col_idx ptr = Inr []"
| "getRowAt_loop E rs st bs local_entry_idx global_entry_idx translate_strings decimal_to_double
     fixup targets_to_skip keys_ptr (agg_info # rest) target_idx agg_col_idx ptr =
     (let sep = separate_varlen_storage_valid rs;
          decoded =
            (if didOutputColumnar (rs_query_mem_desc rs) then
               getTargetValueFromBufferColwise E bs ptr keys_ptr (query_mem_desc st)
                 local_entry_idx global_entry_idx agg_info target_idx agg_col_idx
                 translate_strings decimal_to_double
             else
               getTargetValueFromBufferRowwise E bs ptr keys_ptr global_entry_idx agg_info
                 target_idx agg_col_idx translate_strings decimal_to_double fixup);
          pushed =
            (if targets_to_skip \<noteq> [] then
               (if \<not> target_idx < length targets_to_skip then Inl OutOfRange
                else if \<not> targets_to_skip ! target_idx then map_sum id Decoded decoded
                else Inr (NullableString None))
             else map_sum id Decoded decoded);
          ptr' =
            (if didOutputColumnar (rs_query_mem_desc rs) then
               advance_target_ptr_col_wise E ptr agg_info agg_col_idx (query_mem_desc st) sep
             else
               advance_target_ptr_row_wise E ptr agg_info agg_col_idx (rs_query_mem_desc rs) sep)
      in case pushed of
           Inl e \<Rightarrow> Inl e
         | Inr v \<Rightarrow>
             (case getRowAt_loop E rs st bs local_entry_idx global_entry_idx translate_strings
                     decimal_to_double fixup targets_to_skip keys_ptr rest (target_idx + 1)
                     (advance_slot E agg_col_idx agg_info sep) ptr' of
                Inl e \<Rightarrow> Inl e
              | Inr vs \<Rightarrow> Inr (v # vs)))"

text \<open>
  \<^verbatim>\<open>ResultSet::getRowAt(global_entry_idx, translate_strings, decimal_to_double,
  fixup_count_distinct_pointers, targets_to_skip)\<close>
\<close>

definition getRowAt_entry ::
  "'tv Env \<Rightarrow> ResultSet \<Rightarrow> nat \<Rightarrow> bool \<Rightarrow> bool \<Rightarrow> bool \<Rightarrow> bool list
     \<Rightarrow> error + 'tv TargetValue list" where
  "getRowAt_entry E rs global_entry_idx translate_strings decimal_to_double fixup targets_to_skip =
     (case (if fixup then
              (case storage rs of
                 None \<Rightarrow> Inl NullPointer
               | Some s0 \<Rightarrow>
                   Inr \<lparr>storage_ptr = s0, fixedup_entry_idx = global_entry_idx, storage_idx = 0\<rparr>)
            else findStorage rs global_entry_idx) of
        Inl e \<Rightarrow> Inl e
      | Inr storage_lookup_result \<Rightarrow>
          (let st = storage_ptr storage_lookup_result;
               local_entry_idx = fixedup_entry_idx storage_lookup_result
           in case (if fixup then Inr False else isEmptyEntry E st local_entry_idx) of
                Inl e \<Rightarrow> Inl e
              | Inr True \<Rightarrow> Inr []
              | Inr False \<Rightarrow>
                  (case buff st of
                     None \<Rightarrow> Inl CheckFailed
                   | Some bs \<Rightarrow>
                       if didOutputColumnar (rs_query_mem_desc rs) then
                         getRowAt_loop E rs st bs local_entry_idx global_entry_idx
                           translate_strings decimal_to_double fixup targets_to_skip
                           0 (targets st) 0 0 (get_cols_ptr E (query_mem_desc st))
                       else
                         (let keys_ptr = row_ptr_rowwise E (rs_query_mem_desc rs) local_entry_idx
                          in getRowAt_loop E rs st bs local_entry_idx global_entry_idx
                               translate_strings decimal_to_double fixup targets_to_skip
                               keys_ptr (targets st) 0 0
                               (keys_ptr + key_bytes_with_padding E (rs_query_mem_desc rs))))))"

text \<open>\<^verbatim>\<open>ResultSet::getRowAt(logical_index)\<close>\<close>

definition getRowAt :: "'tv Env \<Rightarrow> ResultSet \<Rightarrow> nat \<Rightarrow> error + 'tv TargetValue list" where
  "getRowAt E rs logical_index =
     (if logical_index \<ge> entryCount rs then Inr []
      else
        (case permuted_idx rs logical_index of
           Inl e \<Rightarrow> Inl e
         | Inr entry_idx \<Rightarrow> getRowAt_entry E rs entry_idx True False False []))"

text \<open>
  What \<^verbatim>\<open>getRowAt(global_entry_idx, ...)\<close> does once the lookup has resolved to a
  storage and a local entry index, written out on its own to state where a row comes from:
  the empty row for an empty entry of that storage, else the targets decoded from that
  storage's buffer at the local index.
\<close>

definition row_of_entry ::
  "'tv Env \<Rightarrow> ResultSet \<Rightarrow> ResultSetStorage \<Rightarrow> nat \<Rightarrow> nat \<Rightarrow> bool \<Rightarrow> bool \<Rightarrow> bool list
     \<Rightarrow> error + 'tv TargetValue list" where
  "row_of_entry E rs st local_entry_idx global_entry_idx translate_strings decimal_to_double
     targets_to_skip =
     (case isEmptyEntry E st local_entry_idx of
        Inl e \<Rightarrow> Inl e
      | Inr True \<Rightarrow> Inr []
      | Inr False \<Rightarrow>
          (case buff st of
             None \<Rightarrow> Inl CheckFailed
           | Some bs \<Rightarrow>
               if didOutputColumnar (rs_query_mem_desc rs) then
                 getRowAt_loop E rs st bs local_entry_idx global_entry_idx
                   translate_strings decimal_to_double False targets_to_skip
                   0 (targets st) 0 0 (get_cols_ptr E (query_mem_desc st))
               else
                 (let keys_ptr = row_ptr_rowwise E (rs_query_mem_desc rs) local_entry_idx
                  in getRowAt_loop E rs st bs local_entry_idx global_entry_idx
                       translate_strings decimal_to_double False targets_to_skip
                       keys_ptr (targets st) 0 0
                       (keys_ptr + key_bytes_with_padding E (rs_query_mem_desc rs)))))"

text \<open>\<^verbatim>\<open>ResultSet::getRowAtNoTranslations(logical_index, targets_to_skip)\<close>\<close>

definition getRowAtNoTranslations ::
  "'tv Env \<Rightarrow> ResultSet \<Rightarrow> nat \<Rightarrow> bool list \<Rightarrow> error + 'tv TargetValue list" where
  "getRowAtNoTranslations E rs logical_index targets_to_skip =
     (if logical_index \<ge> entryCount rs then Inr []
      else
        (case permuted_idx rs logical_index of
           Inl e \<Rightarrow> Inl e
         | Inr entry_idx \<Rightarrow> getRowAt_entry E rs entry_idx False False False targets_to_skip))"

text \<open>\<^verbatim>\<open>ResultSet::isRowAtEmpty(logical_index)\<close>\<close>

definition isRowAtEmpty :: "'tv Env \<Rightarrow> ResultSet \<Rightarrow> nat \<Rightarrow> error + bool" where
  "isRowAtEmpty E rs logical_index =
     (if logical_index \<ge> entryCount rs then Inr True
      else
        (case permuted_idx rs logical_index of
           Inl e \<Rightarrow> Inl e
         | Inr entry_idx \<Rightarrow>
             (case findStorage rs entry_idx of
                Inl e \<Rightarrow> Inl e
              | Inr storage_lookup_result \<Rightarrow>
                  isEmptyEntry E (storage_ptr storage_lookup_result)
                    (fixedup_entry_idx storage_lookup_result))))"

subsection \<open>The cursor of getNextRow\<close>

text \<open>
  The \<^verbatim>\<open>while\<close> loop of \<^verbatim>\<open>ResultSet::advanceCursorToNextEntry()\<close>: it only moves
  \<^verbatim>\<open>crt_row_buff_idx_\<close>, which is the argument \<open>crt\<close>; the result is where it stops.
\<close>

function advanceCursorToNextEntry_loop :: "'tv Env \<Rightarrow> ResultSet \<Rightarrow> nat \<Rightarrow> error + nat" where
  "advanceCursorToNextEntry_loop E rs crt =
     (if crt < entryCount rs then
        (case permuted_idx rs crt of
           Inl e \<Rightarrow> Inl e
         | Inr entry_idx \<Rightarrow>
             (case findStorage rs entry_idx of
                Inl e \<Rightarrow> Inl e
              | Inr storage_lookup_result \<Rightarrow>
                  (case isEmptyEntry E (storage_ptr storage_lookup_result)
                          (fixedup_entry_idx storage_lookup_result) of
                     Inl e \<Rightarrow> Inl e
                   | Inr b \<Rightarrow>
                       if \<not> b then Inr crt
                       else advanceCursorToNextEntry_loop E rs (crt + 1))))
      else Inr crt)"
  by pat_completeness auto
termination
  by (relation "measure (\<lambda>(E, rs, crt). entryCount rs - crt)") auto

text \<open>
  \<^verbatim>\<open>size_t ResultSet::advanceCursorToNextEntry() const\<close>: the entry index the cursor
  stopped at, and the result set with the cursor moved.
\<close>

definition advanceCursorToNextEntry :: "'tv Env \<Rightarrow> ResultSet \<Rightarrow> error + nat \<times> ResultSet" where
  "advanceCursorToNextEntry E rs =
     (case advanceCursorToNextEntry_loop E rs (crt_row_buff_idx rs) of
        Inl e \<Rightarrow> Inl e
      | Inr crt \<Rightarrow>
          if permutation rs = [] then Inr (crt, rs\<lparr>crt_row_buff_idx := crt\<rparr>)
          else if \<not> crt \<le> length (permutation rs) then Inl CheckFailed
          else Inr (if crt = length (permutation rs) then crt else permutation rs ! crt,
                    rs\<lparr>crt_row_buff_idx := crt\<rparr>))"

text \<open>
  \<^verbatim>\<open>ResultSet::getNextRowImpl\<close>: the \<^verbatim>\<open>do ... while\<close> loop is the recursion. It returns
  the row (\<open>[]\<close> is the empty vector) and the result set with the cursor moved. The sum
  \<^verbatim>\<open>drop_first_ + keep_first_\<close> is a sum of two \<^verbatim>\<open>size_t\<close>: it is taken modulo
  \<open>2 ^ 64\<close>.
\<close>

function getNextRowImpl ::
  "'tv Env \<Rightarrow> ResultSet \<Rightarrow> bool \<Rightarrow> bool \<Rightarrow> error + 'tv TargetValue list \<times> ResultSet" where
  "getNextRowImpl E rs translate_strings decimal_to_double =
     (if keep_first rs \<noteq> 0 \<and> fetched_so_far rs \<ge> unat (drop_first rs + keep_first rs)
      then Inr ([], rs)
      else
        (case advanceCursorToNextEntry E rs of
           Inl e \<Rightarrow> Inl e
         | Inr (entry_buff_idx, rs1) \<Rightarrow>
             if crt_row_buff_idx rs1 \<ge> entryCount rs1 then
               (if entryCount rs1 = crt_row_buff_idx rs1 then Inr ([], rs1) else Inl CheckFailed)
             else if drop_first rs1 \<noteq> 0 \<and> fetched_so_far rs1 + 1 \<le> unat (drop_first rs1) then
               getNextRowImpl E
                 (rs1\<lparr>crt_row_buff_idx := crt_row_buff_idx rs1 + 1,
                      fetched_so_far := fetched_so_far rs1 + 1\<rparr>)
                 translate_strings decimal_to_double
             else
               (case getRowAt_entry E
                       (rs1\<lparr>crt_row_buff_idx := crt_row_buff_idx rs1 + 1,
                            fetched_so_far := fetched_so_far rs1 + 1\<rparr>)
                       entry_buff_idx translate_strings decimal_to_double False [] of
                  Inl e \<Rightarrow> Inl e
                | Inr row \<Rightarrow>
                    if row = [] then Inl CheckFailed
                    else Inr (row,
                              rs1\<lparr>crt_row_buff_idx := crt_row_buff_idx rs1 + 1,
                                   fetched_so_far := fetched_so_far rs1 + 1\<rparr>))))"
  by pat_completeness auto
termination
proof (relation "measure (\<lambda>(E, rs, ts, dd). unat (drop_first rs) + 1 - fetched_so_far rs)",
    goal_cases)
  case 1
  show ?case by simp
next
  case (2 E rs ts dd b x y)
  have "advanceCursorToNextEntry E rs = Inr (x, y)"
    using 2(2,3) by simp
  then have "\<exists>crt. y = rs\<lparr>crt_row_buff_idx := crt\<rparr>"
    unfolding advanceCursorToNextEntry_def
    by (cases "advanceCursorToNextEntry_loop E rs (crt_row_buff_idx rs)")
       (auto split: if_splits)
  then obtain crt where "y = rs\<lparr>crt_row_buff_idx := crt\<rparr>" ..
  with 2(5) show ?case by auto
qed

text \<open>\<^verbatim>\<open>ResultSet::getNextRowUnlocked\<close>\<close>

definition getNextRowUnlocked ::
  "'tv Env \<Rightarrow> ResultSet \<Rightarrow> bool \<Rightarrow> bool \<Rightarrow> error + 'tv TargetValue list \<times> ResultSet" where
  "getNextRowUnlocked E rs translate_strings decimal_to_double =
     (if just_explain rs then
        (if fetched_so_far rs \<noteq> 0 then Inr ([], rs)
         else Inr ([NullableString (Some (explanation rs))], rs\<lparr>fetched_so_far := 1\<rparr>))
      else getNextRowImpl E rs translate_strings decimal_to_double)"

text \<open>
  \<^verbatim>\<open>ResultSet::getNextRow\<close>. The lock serialises concurrent callers; one caller at a
  time is what the model describes.
\<close>

definition getNextRow ::
  "'tv Env \<Rightarrow> ResultSet \<Rightarrow> bool \<Rightarrow> bool \<Rightarrow> error + 'tv TargetValue list \<times> ResultSet" where
  "getNextRow E rs translate_strings decimal_to_double =
     (if storage rs = None \<and> \<not> just_explain rs then Inr ([], rs)
      else getNextRowUnlocked E rs translate_strings decimal_to_double)"

text \<open>
  \<open>n\<close> successive calls of \<^verbatim>\<open>getNextRow\<close> by one caller: the rows in the order they
  were returned, and the result set after the last call.
\<close>

primrec getNextRows ::
  "'tv Env \<Rightarrow> nat \<Rightarrow> ResultSet \<Rightarrow> bool \<Rightarrow> bool
     \<Rightarrow> error + 'tv TargetValue list list \<times> ResultSet" where
  "getNextRows E 0 rs translate_strings decimal_to_double = Inr ([], rs)"
| "getNextRows E (Suc n) rs translate_strings decimal_to_double =
     (case getNextRow E rs translate_strings decimal_to_double of
        Inl e \<Rightarrow> Inl e
      | Inr (row, rs1) \<Rightarrow>
          (case getNextRows E n rs1 translate_strings decimal_to_double of
             Inl e \<Rightarrow> Inl e
           | Inr (rows, rs2) \<Rightarrow> Inr (row # rows, rs2)))"

subsection \<open>What an iteration is expected to return\<close>

text \<open>
  The vocabulary of the iteration properties. A logical position is valid when
  \<^verbatim>\<open>isRowAtEmpty\<close> returns false there; the valid positions are listed in cursor
  order; the row at a position is what \<^verbatim>\<open>getRowAt(entry_idx, ...)\<close> materialises for
  its entry.
\<close>

definition row_is_valid :: "'tv Env \<Rightarrow> ResultSet \<Rightarrow> nat \<Rightarrow> bool" where
  "row_is_valid E rs p = (isRowAtEmpty E rs p = Inr False)"

definition valid_positions :: "'tv Env \<Rightarrow> ResultSet \<Rightarrow> nat list" where
  "valid_positions E rs = filter (row_is_valid E rs) [0..<entryCount rs]"

definition row_at :: "'tv Env \<Rightarrow> ResultSet \<Rightarrow> nat \<Rightarrow> bool \<Rightarrow> bool \<Rightarrow> error + 'tv TargetValue list" where
  "row_at E rs p translate_strings decimal_to_double =
     (case permuted_idx rs p of
        Inl e \<Rightarrow> Inl e
      | Inr entry_idx \<Rightarrow>
          getRowAt_entry E rs entry_idx translate_strings decimal_to_double False [])"

text \<open>
  OFFSET and LIMIT: the first \<open>drop_first\<close> valid positions are skipped; of the rest
  \<open>keep_first\<close> are kept, all of them when \<open>keep_first\<close> is zero.
\<close>

definition yielded_positions :: "'tv Env \<Rightarrow> ResultSet \<Rightarrow> nat list" where
  "yielded_positions E rs =
     (if keep_first rs = 0 then drop (unat (drop_first rs)) (valid_positions E rs)
      else take (unat (keep_first rs)) (drop (unat (drop_first rs)) (valid_positions E rs)))"

text \<open>
  A result set that can be iterated without a fatal defect: it is not an explanation, its
  storage is allocated, \<^verbatim>\<open>isEmptyEntry\<close> decides every entry, and every valid entry
  materialises to a non-empty row.
\<close>

definition iterable :: "'tv Env \<Rightarrow> ResultSet \<Rightarrow> bool \<Rightarrow> bool \<Rightarrow> bool" where
  "iterable E rs translate_strings decimal_to_double =
     (\<not> just_explain rs \<and> storage rs \<noteq> None \<and>
      (\<forall>p<entryCount rs. \<exists>b. isRowAtEmpty E rs p = Inr b) \<and>
      (\<forall>p<entryCount rs. row_is_valid E rs p \<longrightarrow>
         (\<exists>row. row_at E rs p translate_strings decimal_to_double = Inr row \<and> row \<noteq> [])))"

text \<open>\<^verbatim>\<open>isEmptyEntry\<close> decides every entry: no checked assertion fires, no read fails.\<close>

definition decided :: "'tv Env \<Rightarrow> ResultSet \<Rightarrow> bool" where
  "decided E rs = (\<forall>p<entryCount rs. \<exists>b. isRowAtEmpty E rs p = Inr b)"

text \<open>The rows of a list of positions; a position past the end of the list gives no row.\<close>

definition rows_of ::
  "'tv Env \<Rightarrow> ResultSet \<Rightarrow> bool \<Rightarrow> bool \<Rightarrow> nat list \<Rightarrow> nat \<Rightarrow> 'tv TargetValue list" where
  "rows_of E rs translate_strings decimal_to_double ps j =
     (if j < length ps then
        (case row_at E rs (ps ! j) translate_strings decimal_to_double of
           Inl e \<Rightarrow> [] | Inr row \<Rightarrow> row)
      else [])"

subsection \<open>The row count\<close>

text \<open>
  Modelled from the spec: \<^verbatim>\<open>ResultSet::rowCount\<close> is declared in \<^verbatim>\<open>ResultSet.h\<close> and
  defined outside the modelled files. The spec and the comment of the declaration: the
  number of valid entries of the result set, inclusive of any applied LIMIT and OFFSET,
  found by a linear scan over \<open>entryCount()\<close> (the closed form, the binary search for
  projections and the parallel scan are faster ways to the same number).
\<close>

primrec count_valid_entries :: "'tv Env \<Rightarrow> ResultSet \<Rightarrow> nat list \<Rightarrow> error + nat" where
  "count_valid_entries E rs [] = Inr 0"
| "count_valid_entries E rs (i # rest) =
     (case isRowAtEmpty E rs i of
        Inl e \<Rightarrow> Inl e
      | Inr b \<Rightarrow>
          (case count_valid_entries E rs rest of
             Inl e \<Rightarrow> Inl e
           | Inr c \<Rightarrow> Inr (if b then c else c + 1)))"

definition get_truncated_row_count :: "nat \<Rightarrow> nat \<Rightarrow> nat \<Rightarrow> nat" where
  "get_truncated_row_count total_row_count limit offs =
     (if total_row_count \<le> offs then 0
      else if limit \<noteq> 0 then min (total_row_count - offs) limit
      else total_row_count - offs)"

definition rowCount :: "'tv Env \<Rightarrow> ResultSet \<Rightarrow> error + nat" where
  "rowCount E rs =
     (case count_valid_entries E rs [0..<entryCount rs] of
        Inl e \<Rightarrow> Inl e
      | Inr total_row_count \<Rightarrow>
          Inr (get_truncated_row_count total_row_count
                 (unat (keep_first rs)) (unat (drop_first rs))))"

subsection \<open>Operations that change the result set\<close>

text \<open>
  Modelled from the spec: \<^verbatim>\<open>ResultSetStorage::updateEntryCount\<close> is a member of a class
  declared outside the modelled files. The spec: the entry count of the storage is updated
  to the new value.
\<close>

definition updateEntryCount :: "ResultSetStorage \<Rightarrow> nat \<Rightarrow> ResultSetStorage" where
  "updateEntryCount s new_entry_count =
     s\<lparr>query_mem_desc := setEntryCount (query_mem_desc s) new_entry_count\<rparr>"

text \<open>\<^verbatim>\<open>ResultSet::updateStorageEntryCount\<close>\<close>

definition updateStorageEntryCount :: "ResultSet \<Rightarrow> nat \<Rightarrow> error + ResultSet" where
  "updateStorageEntryCount rs new_entry_count =
     (if \<not> (getQueryDescriptionType (rs_query_mem_desc rs) = Projection \<or>
             getQueryDescriptionType (rs_query_mem_desc rs) = TableFunction)
      then Inl CheckFailed
      else
        (let rs1 = rs\<lparr>rs_query_mem_desc := setEntryCount (rs_query_mem_desc rs) new_entry_count\<rparr>
         in case storage rs1 of
              None \<Rightarrow> Inl CheckFailed
            | Some s0 \<Rightarrow> Inr (rs1\<lparr>storage := Some (updateEntryCount s0 new_entry_count)\<rparr>)))"

text \<open>\<^verbatim>\<open>ResultSet::clearPermutation\<close>\<close>

definition clearPermutation :: "ResultSet \<Rightarrow> ResultSet" where
  "clearPermutation rs = (if permutation rs \<noteq> [] then rs\<lparr>permutation := []\<rparr> else rs)"

text \<open>
  \<^verbatim>\<open>ResultSet::initStatus\<close>; the geo return type and the cached row count are not part
  of the model.
\<close>

definition initStatus :: "ResultSet \<Rightarrow> ResultSet" where
  "initStatus rs =
     (clearPermutation (rs\<lparr>crt_row_buff_idx := 0, fetched_so_far := 0\<rparr>))
       \<lparr>drop_first := 0, keep_first := 0\<rparr>"


subsection \<open>A concrete environment for examples\<close>

text \<open>
  To evaluate the model on concrete buffers the parameters need values. This instance is
  used in examples only: the empty keys are the largest signed number of each width, a
  row holds the 8-byte-aligned keys followed by the padded slots, a columnar buffer holds
  the key columns followed by one 8-byte-aligned column per slot, an \<^verbatim>\<open>AVG\<close> target
  takes two slots, and a target value is the 8-byte integer in its slot.
\<close>

definition align_to_int64 :: "nat \<Rightarrow> nat" where
  "align_to_int64 n = ((n + 7) div 8) * 8"

definition example_key_bytes :: "QueryMemoryDescriptor \<Rightarrow> nat" where
  "example_key_bytes qmd =
     (if keyless_hash qmd then 0
      else align_to_int64 (nat (getEffectiveKeyWidth qmd) * length (group_col_widths qmd)))"

definition example_Env :: "nat \<Rightarrow> int Env" where
  "example_Env nslots =
     \<lparr>EMPTY_KEY_64 = 2 ^ 63 - 1,
      EMPTY_KEY_32 = 2 ^ 31 - 1,
      EMPTY_KEY_16 = 2 ^ 15 - 1,
      EMPTY_KEY_8 = 2 ^ 7 - 1,
      row_ptr_rowwise =
        (\<lambda>qmd entry_idx.
           entry_idx * (example_key_bytes qmd + getPaddedColWidthForRange qmd 0 nslots)),
      get_cols_ptr =
        (\<lambda>qmd. if keyless_hash qmd then 0
               else align_to_int64 (entry_count qmd * nat (getEffectiveKeyWidth qmd))
                      * length (group_col_widths qmd)),
      advance_to_next_columnar_target_buff =
        (\<lambda>ptr qmd slot_idx.
           ptr + align_to_int64 (entry_count qmd * nat (getPaddedSlotWidthBytes qmd slot_idx))),
      advance_slot = (\<lambda>j info sep. j + (if agg_kind info = kAVG then 2 else 1)),
      getBufferColSlotCount = (\<lambda>qmd. nslots),
      getPrependedGroupColOffInBytes =
        (\<lambda>qmd group_idx.
           group_idx * align_to_int64 (entry_count qmd * nat (getEffectiveKeyWidth qmd))),
      key_bytes_with_padding = example_key_bytes,
      advance_target_ptr_row_wise =
        (\<lambda>ptr info slot_idx qmd sep.
           ptr + nat (getPaddedSlotWidthBytes qmd slot_idx)
               + (if agg_kind info = kAVG then nat (getPaddedSlotWidthBytes qmd (slot_idx + 1))
                  else 0)),
      advance_target_ptr_col_wise =
        (\<lambda>ptr info slot_idx qmd sep.
           ptr + align_to_int64 (entry_count qmd * nat (getPaddedSlotWidthBytes qmd slot_idx))
               + (if agg_kind info = kAVG
                  then align_to_int64
                         (entry_count qmd * nat (getPaddedSlotWidthBytes qmd (slot_idx + 1)))
                  else 0)),
      getTargetValueFromBufferRowwise =
        (\<lambda>bs ptr keys_ptr global_entry_idx info target_idx slot_idx ts dd fixup.
           load_int (Some bs) ptr 8),
      getTargetValueFromBufferColwise =
        (\<lambda>bs ptr keys_ptr qmd local_entry_idx global_entry_idx info target_idx slot_idx
            ts dd. load_int (Some bs) (ptr + 8 * local_entry_idx) 8)\<rparr>"

text \<open>
  The 8 bytes of a 64-bit integer, least significant first, and a row-wise projection
  buffer with one 8-byte key and one 8-byte slot per entry.
\<close>

definition bytes_of_int64 :: "int \<Rightarrow> 8 word list" where
  "bytes_of_int64 v = map (\<lambda>k. word_of_int ((v mod 2 ^ 64) div 2 ^ (8 * k))) [0..<8]"

definition example_rows :: "(int \<times> int) list \<Rightarrow> 8 word list" where
  "example_rows kvs = concat (map (\<lambda>(k, v). bytes_of_int64 k @ bytes_of_int64 v) kvs)"

definition example_qmd :: "QueryDescriptionType \<Rightarrow> bool \<Rightarrow> nat \<Rightarrow> QueryMemoryDescriptor" where
  "example_qmd ty columnar n =
     \<lparr>query_desc_type = ty, keyless_hash = False, idx_target_as_key = 0,
      group_col_widths = [8], group_col_compact_width = 0, entry_count = n,
      output_columnar = columnar, col_slot_context = (\<lambda>slot_idx. 8)\<rparr>"

definition example_storage ::
  "QueryDescriptionType \<Rightarrow> (int \<times> int) list \<Rightarrow> ResultSetStorage" where
  "example_storage ty kvs =
     \<lparr>targets = [\<lparr>is_agg = False, agg_kind = kMIN\<rparr>],
      query_mem_desc = example_qmd ty False (length kvs),
      buff = Some (example_rows kvs),
      target_init_vals = [0]\<rparr>"

text \<open>The same entries in a columnar buffer: the key column, then the slot column.\<close>

definition example_columns :: "(int \<times> int) list \<Rightarrow> 8 word list" where
  "example_columns kvs =
     concat (map (\<lambda>(k, v). bytes_of_int64 k) kvs) @ concat (map (\<lambda>(k, v). bytes_of_int64 v) kvs)"

definition example_storage_columnar ::
  "QueryDescriptionType \<Rightarrow> (int \<times> int) list \<Rightarrow> ResultSetStorage" where
  "example_storage_columnar ty kvs =
     \<lparr>targets = [\<lparr>is_agg = False, agg_kind = kMIN\<rparr>],
      query_mem_desc = example_qmd ty True (length kvs),
      buff = Some (example_columns kvs),
      target_init_vals = [0]\<rparr>"

definition example_ResultSet ::
  "QueryDescriptionType \<Rightarrow> (int \<times> int) list \<Rightarrow> (int \<times> int) list list \<Rightarrow> ResultSet" where
  "example_ResultSet ty kvs appended =
     \<lparr>rs_query_mem_desc = example_qmd ty False (length kvs + length (concat appended)),
      storage = Some (example_storage ty kvs),
      appended_storage = map (example_storage ty) appended,
      crt_row_buff_idx = 0, fetched_so_far = 0, drop_first = 0, keep_first = 0,
      permutation = [], separate_varlen_storage_valid = False,
      explanation = [], just_explain = False\<rparr>"

text \<open>The definitions a simplifier run unfolds to evaluate \<^verbatim>\<open>isEmptyEntry\<close> on an example.\<close>

lemmas example_defs =
  isEmptyEntry_def isEmptyEntry_buff_def isEmptyEntryColumnar_def example_storage_def
  example_qmd_def example_Env_def getQueryDescriptionType_def didOutputColumnar_def
  hasKeylessHash_def getEffectiveKeyWidth_def getEntryCount_def read_equals_def load_int_def
  example_rows_def example_columns_def example_storage_columnar_def bytes_of_int64_def
  example_key_bytes_def align_to_int64_def
  getPaddedColWidthForRange_def getPaddedSlotWidthBytes_def size_t_of_int_def upt_rec

section \<open>Properties\<close>

subsection \<open>Random access beyond the last entry\<close>

text \<open>
  C10. For every logical index greater than or equal to \<open>entryCount()\<close>,
  \<^verbatim>\<open>getRowAt(index)\<close> and \<^verbatim>\<open>getRowAtNoTranslations(index)\<close> return an empty row vector
  and \<^verbatim>\<open>isRowAtEmpty(index)\<close> returns true. No storage is accessed: the results are the
  same whatever the primary and appended storages are, a null primary storage included.
  Nothing changes: the three functions return a value and no result set.
\<close>

theorem random_access_out_of_range:
  assumes "entryCount rs \<le> logical_index"
  shows "getRowAt E (rs\<lparr>storage := st, appended_storage := app\<rparr>) logical_index = Inr []
       \<and> getRowAtNoTranslations E (rs\<lparr>storage := st, appended_storage := app\<rparr>) logical_index
           targets_to_skip = Inr []
       \<and> isRowAtEmpty E (rs\<lparr>storage := st, appended_storage := app\<rparr>) logical_index = Inr True"
proof -
  have "entryCount (rs\<lparr>storage := st, appended_storage := app\<rparr>) = entryCount rs"
    by (simp add: entryCount_def)
  with assms show ?thesis
    by (simp add: getRowAt_def getRowAtNoTranslations_def isRowAtEmpty_def)
qed

theorem random_access_out_of_range_witness:
  "entryCount (example_ResultSet Projection [(1, 10), (2, 20)] []) \<le> 2
   \<and> getRowAt (example_Env 1)
        ((example_ResultSet Projection [(1, 10), (2, 20)] [])
           \<lparr>storage := None, appended_storage := []\<rparr>) 2 = Inr []
   \<and> getRowAtNoTranslations (example_Env 1)
        ((example_ResultSet Projection [(1, 10), (2, 20)] [])
           \<lparr>storage := None, appended_storage := []\<rparr>) 2 [] = Inr []
   \<and> isRowAtEmpty (example_Env 1)
        ((example_ResultSet Projection [(1, 10), (2, 20)] [])
           \<lparr>storage := None, appended_storage := []\<rparr>) 2 = Inr True"
proof -
  have h: "entryCount (example_ResultSet Projection [(1, 10), (2, 20)] []) \<le> 2"
    by (simp add: entryCount_def example_ResultSet_def example_qmd_def getEntryCount_def)
  show ?thesis
    using h random_access_out_of_range
              [OF h, where E = "example_Env 1" and st = None and app = "[]"
                 and targets_to_skip = "[]"]
    by simp
qed

subsection \<open>Updating the entry count\<close>

text \<open>
  C9. \<^verbatim>\<open>updateStorageEntryCount(new_entry_count)\<close> is permitted only when the layout's
  query description type is Projection or TableFunction: for any other layout its checked
  assertion fires. When permitted, and the storage is allocated, it returns the result set
  in which the entry count of the layout descriptor and the entry count of the storage
  are the new value and nothing else has changed. (With no storage allocated the second
  checked assertion fires.)
\<close>

theorem updateStorageEntryCount_permitted:
  "(getQueryDescriptionType (rs_query_mem_desc rs) \<noteq> Projection \<and>
    getQueryDescriptionType (rs_query_mem_desc rs) \<noteq> TableFunction
      \<longrightarrow> updateStorageEntryCount rs n = Inl CheckFailed)
   \<and> (\<forall>s0. (getQueryDescriptionType (rs_query_mem_desc rs) = Projection \<or>
             getQueryDescriptionType (rs_query_mem_desc rs) = TableFunction) \<and>
            storage rs = Some s0
      \<longrightarrow> (\<exists>rs' s'. updateStorageEntryCount rs n = Inr rs' \<and>
             getEntryCount (rs_query_mem_desc rs') = n \<and>
             storage rs' = Some s' \<and> getEntryCount (query_mem_desc s') = n \<and>
             rs' = rs\<lparr>rs_query_mem_desc := (rs_query_mem_desc rs)\<lparr>entry_count := n\<rparr>,
                       storage := Some (s0\<lparr>query_mem_desc :=
                                             (query_mem_desc s0)\<lparr>entry_count := n\<rparr>\<rparr>)\<rparr>))
   \<and> (\<forall>rs'. updateStorageEntryCount rs n = Inr rs'
      \<longrightarrow> (getQueryDescriptionType (rs_query_mem_desc rs) = Projection \<or>
           getQueryDescriptionType (rs_query_mem_desc rs) = TableFunction) \<and>
          storage rs \<noteq> None)"
  by (auto simp: updateStorageEntryCount_def updateEntryCount_def setEntryCount_def
        getEntryCount_def Let_def split: option.splits)

theorem updateStorageEntryCount_permitted_witness:
  "updateStorageEntryCount (example_ResultSet GroupByBaselineHash [(1, 10), (2, 20)] []) 1
     = Inl CheckFailed
   \<and> (\<exists>rs' s'. updateStorageEntryCount (example_ResultSet Projection [(1, 10), (2, 20)] []) 1
                 = Inr rs' \<and>
        getEntryCount (rs_query_mem_desc rs') = 1 \<and>
        storage rs' = Some s' \<and> getEntryCount (query_mem_desc s') = 1)"
proof -
  have a: "getQueryDescriptionType
             (rs_query_mem_desc (example_ResultSet GroupByBaselineHash [(1, 10), (2, 20)] []))
           = GroupByBaselineHash"
    by (simp add: example_ResultSet_def example_qmd_def getQueryDescriptionType_def)
  have b: "getQueryDescriptionType
             (rs_query_mem_desc (example_ResultSet Projection [(1, 10), (2, 20)] []))
           = Projection"
    by (simp add: example_ResultSet_def example_qmd_def getQueryDescriptionType_def)
  have c: "storage (example_ResultSet Projection [(1, 10), (2, 20)] [])
           = Some (example_storage Projection [(1, 10), (2, 20)])"
    by (simp add: example_ResultSet_def)
  from updateStorageEntryCount_permitted
         [of "example_ResultSet GroupByBaselineHash [(1, 10), (2, 20)] []" 1] a
  have "updateStorageEntryCount (example_ResultSet GroupByBaselineHash [(1, 10), (2, 20)] []) 1
          = Inl CheckFailed"
    by simp
  moreover
  from updateStorageEntryCount_permitted
         [of "example_ResultSet Projection [(1, 10), (2, 20)] []" 1] b c
  have "\<exists>rs' s'. updateStorageEntryCount (example_ResultSet Projection [(1, 10), (2, 20)] []) 1
                 = Inr rs' \<and>
        getEntryCount (rs_query_mem_desc rs') = 1 \<and>
        storage rs' = Some s' \<and> getEntryCount (query_mem_desc s') = 1"
    by blast
  ultimately show ?thesis by blast
qed

subsection \<open>Emptiness of an entry\<close>

lemma isEmptyEntry_eq_spec:
  assumes "checks_pass s i"
      and "getQueryDescriptionType (query_mem_desc s) \<noteq> NonGroupedAggregate"
      and "\<not> (didOutputColumnar (query_mem_desc s) \<and>
              getQueryDescriptionType (query_mem_desc s) = TableFunction)"
  shows "isEmptyEntry E s i = spec_isEmptyEntry E s i"
proof (cases "output_columnar (query_mem_desc s)")
  case False
  with assms show ?thesis
    by (auto simp: isEmptyEntry_def isEmptyEntry_buff_def spec_isEmptyEntry_def checks_pass_def
          first_key_def key_target_slot_def layout_key_width_def empty_key_sentinel_def
          getQueryDescriptionType_def didOutputColumnar_def hasKeylessHash_def
          getTargetIdxForKey_def Let_def)
next
  case True
  with assms show ?thesis
    by (auto simp: isEmptyEntry_def isEmptyEntry_buff_def isEmptyEntryColumnar_def
          spec_isEmptyEntry_def checks_pass_def first_key_def key_target_slot_def
          layout_key_width_def empty_key_sentinel_def getQueryDescriptionType_def
          didOutputColumnar_def hasKeylessHash_def getTargetIdxForKey_def getGroupbyColCount_def
          groupColWidth_def read_equals_def Let_def split: sum.splits)
qed

lemma isEmptyEntry_non_grouped:
  "getQueryDescriptionType (query_mem_desc s) = NonGroupedAggregate
     \<Longrightarrow> isEmptyEntry E s i = Inr False"
  by (simp add: isEmptyEntry_def isEmptyEntry_buff_def)

lemma isEmptyEntry_table_function_columnar:
  "didOutputColumnar (query_mem_desc s) \<Longrightarrow>
   getQueryDescriptionType (query_mem_desc s) = TableFunction \<Longrightarrow>
   i < getEntryCount (query_mem_desc s) \<Longrightarrow> isEmptyEntry E s i = Inr False"
  by (simp add: isEmptyEntry_def isEmptyEntry_buff_def isEmptyEntryColumnar_def)

text \<open>\<open>checks_pass\<close> asks for no more than the code does: where it fails, a check fires.\<close>

lemma isEmptyEntry_check_fires:
  assumes "\<not> checks_pass s i"
  shows "isEmptyEntry E s i = Inl CheckFailed"
proof (cases "output_columnar (query_mem_desc s)")
  case False
  with assms show ?thesis
    by (auto simp: isEmptyEntry_def isEmptyEntry_buff_def checks_pass_def
          getQueryDescriptionType_def didOutputColumnar_def hasKeylessHash_def
          getTargetIdxForKey_def Let_def split: if_splits)
next
  case True
  with assms show ?thesis
    by (auto simp: isEmptyEntry_def isEmptyEntry_buff_def isEmptyEntryColumnar_def
          checks_pass_def getQueryDescriptionType_def didOutputColumnar_def hasKeylessHash_def
          getTargetIdxForKey_def getGroupbyColCount_def groupColWidth_def getEntryCount_def
          Let_def split: if_splits)
qed

text \<open>
  Reading back what a buffer holds: the little-endian bytes of a number give the number,
  and the sign extension of the code's read undoes the two's complement.
\<close>

lemma le_unsigned_le_bytes: "le_unsigned (le_bytes n u) = u mod 256 ^ n"
proof (induction n arbitrary: u)
  case 0
  show ?case by simp
next
  case (Suc n)
  have "unat (of_nat (u mod 256) :: 8 word) = u mod 256"
    by (simp add: unat_of_nat)
  then have "le_unsigned (le_bytes (Suc n) u) = u mod 256 + 256 * (u div 256 mod 256 ^ n)"
    by (simp add: Suc.IH)
  also have "\<dots> = u mod (256 * 256 ^ n)"
    by (simp add: mod_mult2_eq)
  finally show ?case by simp
qed

lemma twos_complement_roundtrip:
  fixes v :: int
  assumes "0 < n" and "- (2 ^ (8 * n - 1)) \<le> v" and "v < 2 ^ (8 * n - 1)"
  shows "(let u = int (le_unsigned (int_bytes n v))
          in if u < 2 ^ (8 * n - 1) then u else u - 2 ^ (8 * n)) = v"
proof -
  define M :: int where "M = 2 ^ (8 * n)"
  define H :: int where "H = 2 ^ (8 * n - 1)"
  have MH: "M = 2 * H"
  proof -
    from assms(1) have "8 * n = Suc (8 * n - 1)" by simp
    then have "(2::int) ^ (8 * n) = 2 * 2 ^ (8 * n - 1)" by (metis power_Suc)
    then show ?thesis by (simp add: M_def H_def)
  qed
  have Hpos: "0 < H" by (simp add: H_def)
  have pw: "(256::nat) ^ n = 2 ^ (8 * n)"
    by (simp add: power_mult)
  have "int (le_unsigned (int_bytes n v)) = int (nat (v mod M) mod 2 ^ (8 * n))"
    by (simp add: int_bytes_def le_unsigned_le_bytes pw M_def)
  also have "\<dots> = (v mod M) mod M"
    using MH Hpos by (simp add: zmod_int M_def)
  also have "\<dots> = v mod M" by simp
  finally have u: "int (le_unsigned (int_bytes n v)) = v mod M" .
  have vm: "v mod M = (if 0 \<le> v then v else v + M)"
  proof (cases "0 \<le> v")
    case True
    with assms(3) MH Hpos have "v < M" by (simp add: H_def)
    with True show ?thesis by simp
  next
    case False
    with assms(2) MH have "0 \<le> v + M" "v + M < M" by (simp_all add: H_def)
    then have "(v + M) mod M = v + M" by (rule mod_pos_pos_trivial)
    moreover have "(v + M) mod M = v mod M" by simp
    ultimately show ?thesis using False by simp
  qed
  show ?thesis
    unfolding u Let_def M_def [symmetric] H_def [symmetric]
    using vm assms(2,3) MH Hpos by (auto simp: H_def)
qed

lemma stores_int_load:
  assumes "stores_int buf ptr w v"
  shows "load_int buf ptr (nat w) = Inr v" and "read_int_from_buff buf ptr w = Inr v"
proof -
  from assms obtain bs where bs: "buf = Some bs"
    and w: "w = 8 \<or> w = 4 \<or> w = 2 \<or> w = 1"
    and rng: "- (2 ^ (8 * nat w - 1)) \<le> v" "v < 2 ^ (8 * nat w - 1)"
    and len: "ptr + nat w \<le> length bs"
    and eq: "take (nat w) (drop ptr bs) = int_bytes (nat w) v"
    by (auto simp: stores_int_def split: option.splits)
  from w have pos: "0 < nat w" by auto
  from twos_complement_roundtrip [OF pos rng]
  show l: "load_int buf ptr (nat w) = Inr v"
    using bs len eq by (simp add: load_int_def Let_def)
  with w show "read_int_from_buff buf ptr w = Inr v"
    by (auto simp: read_int_from_buff_def)
qed

lemma stores_int_width:
  "stores_int buf ptr w v \<Longrightarrow> w = 8 \<or> w = 4 \<or> w = 2 \<or> w = 1"
  by (auto simp: stores_int_def split: option.splits)

text \<open>
  The field the spec's test reads is the field at the deciding place, so the test tells an
  absent entry from a present one in any encoding.
\<close>

lemma deciding_place_read:
  assumes "deciding_place E s i = Inr (ptr, w)" and "stores_int (buff s) ptr w v"
  shows "(if keyless_hash (query_mem_desc s) then key_target_slot E s i
          else first_key E s i) = Inr v"
proof (cases "keyless_hash (query_mem_desc s)")
  case True
  with assms(1) stores_int_load(2) [OF assms(2)] show ?thesis
    by (auto simp: deciding_place_def key_target_slot_def Let_def
          split: if_splits sum.splits)
next
  case False
  note wd = stores_int_width [OF assms(2)]
  from False assms(1) have w: "w = layout_key_width (query_mem_desc s)"
    by (auto simp: deciding_place_def Let_def split: if_splits)
  with False assms(1) wd stores_int_load(1) [OF assms(2)] show ?thesis
    by (auto simp: deciding_place_def first_key_def Let_def split: if_splits)
qed

lemma spec_isEmptyEntry_encodes:
  assumes "encodes_entry E s i entry"
  shows "spec_isEmptyEntry E s i = Inr (entry = None)"
proof -
  from assms obtain ptr w where pl: "deciding_place E s i = Inr (ptr, w)"
    by (auto simp: encodes_entry_def split: sum.splits)
  show ?thesis
  proof (cases entry)
    case None
    with assms pl have "stores_int (buff s) ptr w (empty_mark E s)"
      by (simp add: encodes_entry_def)
    from deciding_place_read [OF pl this] None show ?thesis
      by (auto simp: spec_isEmptyEntry_def empty_mark_def read_equals_def split: if_splits)
  next
    case (Some v)
    with assms pl have v: "v \<noteq> empty_mark E s" "stores_int (buff s) ptr w v"
      by (simp_all add: encodes_entry_def)
    from deciding_place_read [OF pl v(2)] v(1) Some show ?thesis
      by (auto simp: spec_isEmptyEntry_def empty_mark_def read_equals_def split: if_splits)
  qed
qed

text \<open>Unfolding the width of \<open>le_bytes\<close> on an example, one byte at a time.\<close>

lemma le_bytes_numeral:
  "le_bytes (numeral k) u = of_nat (u mod 256) # le_bytes (pred_numeral k) (u div 256)"
proof -
  have "numeral k = Suc (pred_numeral k)" by (rule numeral_eq_Suc)
  then show ?thesis by (simp only: le_bytes.simps)
qed

text \<open>
  C2 (amended). For every storage and every entry index: for a NonGroupedAggregate layout
  \<^verbatim>\<open>isEmptyEntry\<close> returns false whatever the entry holds, and so it does for a columnar
  TableFunction layout at an entry index below the entry count. For any other layout that
  passes the checked assertions of \<^verbatim>\<open>isEmptyEntry\<close>, it is the spec's emptiness test,
  that is, it returns true if and only if the first component of the entry's key equals the
  reserved empty-key sentinel for the layout's key width (64/32/16/8-bit), or, for keyless
  layouts, if and only if the designated key-target slot equals its reserved initial value.
  Where a checked assertion does not pass, it fires.
\<close>

theorem isEmptyEntry_iff_sentinel:
  "(getQueryDescriptionType (query_mem_desc s) = NonGroupedAggregate
      \<longrightarrow> isEmptyEntry E s i = Inr False)
   \<and> (didOutputColumnar (query_mem_desc s) \<and>
      getQueryDescriptionType (query_mem_desc s) = TableFunction \<and>
      i < getEntryCount (query_mem_desc s)
      \<longrightarrow> isEmptyEntry E s i = Inr False)
   \<and> (getQueryDescriptionType (query_mem_desc s) \<noteq> NonGroupedAggregate \<and>
      \<not> (didOutputColumnar (query_mem_desc s) \<and>
         getQueryDescriptionType (query_mem_desc s) = TableFunction) \<and>
      checks_pass s i
      \<longrightarrow> isEmptyEntry E s i = spec_isEmptyEntry E s i
        \<and> (isEmptyEntry E s i = Inr True \<longleftrightarrow> spec_isEmptyEntry E s i = Inr True))
   \<and> (\<not> checks_pass s i \<longrightarrow> isEmptyEntry E s i = Inl CheckFailed)"
proof (intro conjI impI)
  assume "getQueryDescriptionType (query_mem_desc s) = NonGroupedAggregate"
  then show "isEmptyEntry E s i = Inr False" by (rule isEmptyEntry_non_grouped)
next
  assume "didOutputColumnar (query_mem_desc s) \<and>
          getQueryDescriptionType (query_mem_desc s) = TableFunction \<and>
          i < getEntryCount (query_mem_desc s)"
  then show "isEmptyEntry E s i = Inr False"
    by (simp add: isEmptyEntry_table_function_columnar)
next
  assume a: "getQueryDescriptionType (query_mem_desc s) \<noteq> NonGroupedAggregate \<and>
          \<not> (didOutputColumnar (query_mem_desc s) \<and>
             getQueryDescriptionType (query_mem_desc s) = TableFunction) \<and>
          checks_pass s i"
  then show e: "isEmptyEntry E s i = spec_isEmptyEntry E s i"
    by (intro isEmptyEntry_eq_spec) auto
  then show "isEmptyEntry E s i = Inr True \<longleftrightarrow> spec_isEmptyEntry E s i = Inr True"
    by simp
next
  assume "\<not> checks_pass s i"
  then show "isEmptyEntry E s i = Inl CheckFailed" by (rule isEmptyEntry_check_fires)
qed

text \<open>More definitions to unfold on an example.\<close>

lemmas example_spec_defs =
  spec_isEmptyEntry_def first_key_def key_target_slot_def layout_key_width_def
  empty_key_sentinel_def checks_pass_def read_int_from_buff_def
  advance_col_buff_to_slot_def get_byteoff_of_slot_def

theorem isEmptyEntry_iff_sentinel_witness:
  "isEmptyEntry (example_Env 1)
     (example_storage GroupByBaselineHash [(1, 10), (2 ^ 63 - 1, 0)]) 1
     = spec_isEmptyEntry (example_Env 1)
         (example_storage GroupByBaselineHash [(1, 10), (2 ^ 63 - 1, 0)]) 1
   \<and> spec_isEmptyEntry (example_Env 1)
       (example_storage GroupByBaselineHash [(1, 10), (2 ^ 63 - 1, 0)]) 1 = Inr True
   \<and> isEmptyEntry (example_Env 1)
       (example_storage GroupByBaselineHash [(1, 10), (2 ^ 63 - 1, 0)]) 0
     = spec_isEmptyEntry (example_Env 1)
         (example_storage GroupByBaselineHash [(1, 10), (2 ^ 63 - 1, 0)]) 0
   \<and> spec_isEmptyEntry (example_Env 1)
       (example_storage GroupByBaselineHash [(1, 10), (2 ^ 63 - 1, 0)]) 0 = Inr False
   \<and> isEmptyEntry (example_Env 1) (example_storage_columnar TableFunction [(1, 10)]) 0
     = Inr False
   \<and> isEmptyEntry (example_Env 1) (example_storage GroupByPerfectHash [(1, 10)]) 0
     = Inr False
   \<and> isEmptyEntry (example_Env 1)
       ((example_storage GroupByPerfectHash [(1, 10)])
          \<lparr>query_mem_desc :=
             (example_qmd GroupByPerfectHash False 1)\<lparr>group_col_compact_width := 4\<rparr>\<rparr>) 0
     = Inl CheckFailed"
proof -
  let ?s = "example_storage GroupByBaselineHash [(1, 10), (2 ^ 63 - 1, 0)]"
  let ?t = "example_storage_columnar TableFunction [(1, 10)]"
  let ?p = "example_storage GroupByPerfectHash [(1, 10)]"
  let ?q = "(example_storage GroupByPerfectHash [(1, 10)])
              \<lparr>query_mem_desc :=
                 (example_qmd GroupByPerfectHash False 1)\<lparr>group_col_compact_width := 4\<rparr>\<rparr>"
  let ?E = "example_Env 1 :: int Env"
  have cp: "checks_pass ?s 0" "checks_pass ?s 1" "checks_pass ?p 0"
    by (simp_all add: example_spec_defs example_defs)
  have ncp: "\<not> checks_pass ?q 0"
    by (simp add: example_spec_defs example_defs)
  have ty: "getQueryDescriptionType (query_mem_desc ?s) \<noteq> NonGroupedAggregate"
    "\<not> didOutputColumnar (query_mem_desc ?s)"
    "getQueryDescriptionType (query_mem_desc ?p) \<noteq> NonGroupedAggregate"
    "\<not> didOutputColumnar (query_mem_desc ?p)"
    by (simp_all add: example_defs)
  have tf: "didOutputColumnar (query_mem_desc ?t)"
    "getQueryDescriptionType (query_mem_desc ?t) = TableFunction"
    "0 < getEntryCount (query_mem_desc ?t)"
    by (simp_all add: example_defs)
  have s1: "spec_isEmptyEntry ?E ?s 1 = Inr True"
    by (simp add: example_spec_defs example_defs)
  have s0: "spec_isEmptyEntry ?E ?s 0 = Inr False"
    by (simp add: example_spec_defs example_defs)
  have p0: "spec_isEmptyEntry ?E ?p 0 = Inr False"
    by (simp add: example_spec_defs example_defs)
  from isEmptyEntry_iff_sentinel [of ?s ?E 1] ty cp
  have "isEmptyEntry ?E ?s 1 = spec_isEmptyEntry ?E ?s 1" by blast
  moreover
  from isEmptyEntry_iff_sentinel [of ?s ?E 0] ty cp
  have "isEmptyEntry ?E ?s 0 = spec_isEmptyEntry ?E ?s 0" by blast
  moreover
  from isEmptyEntry_iff_sentinel [of ?t ?E 0] tf
  have "isEmptyEntry ?E ?t 0 = Inr False" by blast
  moreover
  from isEmptyEntry_iff_sentinel [of ?p ?E 0] ty cp p0
  have "isEmptyEntry ?E ?p 0 = Inr False" by simp
  moreover
  from isEmptyEntry_iff_sentinel [of ?q ?E 0] ncp
  have "isEmptyEntry ?E ?q 0 = Inl CheckFailed" by blast
  ultimately show ?thesis using s0 s1 by blast
qed

text \<open>
  C2 as stated covers every storage. In a NonGroupedAggregate layout an entry whose key
  equals the 64-bit sentinel is empty by the spec's test, and \<^verbatim>\<open>isEmptyEntry\<close>
  returns false: its first statement returns before any key is read.
\<close>

theorem isEmptyEntry_non_grouped_counterexample:
  "getQueryDescriptionType
     (query_mem_desc (example_storage NonGroupedAggregate [(2 ^ 63 - 1, 0)]))
     = NonGroupedAggregate
   \<and> first_key (example_Env 1) (example_storage NonGroupedAggregate [(2 ^ 63 - 1, 0)]) 0
       = Inr (EMPTY_KEY_64 (example_Env 1))
   \<and> spec_isEmptyEntry (example_Env 1) (example_storage NonGroupedAggregate [(2 ^ 63 - 1, 0)]) 0
       = Inr True
   \<and> isEmptyEntry (example_Env 1) (example_storage NonGroupedAggregate [(2 ^ 63 - 1, 0)]) 0
       = Inr False"
  by (simp add: example_spec_defs example_defs)

text \<open>
  C1 (amended). Take a row-wise and a columnar storage of the same query description
  type, and an entry index at which the checked assertions of \<^verbatim>\<open>isEmptyEntry\<close> pass for
  both. For a NonGroupedAggregate layout both tests return false. For a TableFunction
  layout both return false at an entry that the row-wise buffer encodes as present. For
  any other layout, if the two buffers encode the same list of entries, each in its own
  layout and key width, then at every index of that list \<^verbatim>\<open>isEmptyEntry\<close> over the
  row-wise layout and over the columnar layout return the same boolean: true exactly when
  the entry is absent.
\<close>

theorem isEmptyEntry_layouts_agree:
  assumes "\<not> didOutputColumnar (query_mem_desc sr)"
      and "didOutputColumnar (query_mem_desc sc)"
      and "getQueryDescriptionType (query_mem_desc sc)
             = getQueryDescriptionType (query_mem_desc sr)"
      and "checks_pass sr i" and "checks_pass sc i"
  shows "(getQueryDescriptionType (query_mem_desc sr) = NonGroupedAggregate
            \<longrightarrow> isEmptyEntry E sr i = Inr False \<and> isEmptyEntry E sc i = Inr False)
       \<and> (\<forall>v. getQueryDescriptionType (query_mem_desc sr) = TableFunction \<and>
               encodes_entry E sr i (Some v)
            \<longrightarrow> isEmptyEntry E sr i = Inr False \<and> isEmptyEntry E sc i = Inr False)
       \<and> (getQueryDescriptionType (query_mem_desc sr) \<noteq> NonGroupedAggregate \<and>
          getQueryDescriptionType (query_mem_desc sr) \<noteq> TableFunction \<and>
          holds_entries E sr es \<and> holds_entries E sc es \<and> i < length es
            \<longrightarrow> isEmptyEntry E sr i = Inr (es ! i = None)
              \<and> isEmptyEntry E sc i = Inr (es ! i = None))"
proof (intro conjI allI impI)
  assume nga: "getQueryDescriptionType (query_mem_desc sr) = NonGroupedAggregate"
  then show "isEmptyEntry E sr i = Inr False" by (rule isEmptyEntry_non_grouped)
  from nga assms(3) show "isEmptyEntry E sc i = Inr False"
    by (simp add: isEmptyEntry_non_grouped)
next
  fix v
  assume a: "getQueryDescriptionType (query_mem_desc sr) = TableFunction \<and>
             encodes_entry E sr i (Some v)"
  with assms(1,4) have "isEmptyEntry E sr i = spec_isEmptyEntry E sr i"
    by (intro isEmptyEntry_eq_spec) auto
  with a show "isEmptyEntry E sr i = Inr False"
    using spec_isEmptyEntry_encodes [of E sr i "Some v"] by simp
  from a assms(3) have "getQueryDescriptionType (query_mem_desc sc) = TableFunction" by simp
  moreover from this assms(2,5) have "i < getEntryCount (query_mem_desc sc)"
    by (simp add: checks_pass_def getQueryDescriptionType_def didOutputColumnar_def
          getEntryCount_def)
  ultimately show "isEmptyEntry E sc i = Inr False"
    using assms(2) by (simp add: isEmptyEntry_table_function_columnar)
next
  assume a: "getQueryDescriptionType (query_mem_desc sr) \<noteq> NonGroupedAggregate \<and>
          getQueryDescriptionType (query_mem_desc sr) \<noteq> TableFunction \<and>
          holds_entries E sr es \<and> holds_entries E sc es \<and> i < length es"
  then have enc: "encodes_entry E sr i (es ! i)" "encodes_entry E sc i (es ! i)"
    by (simp_all add: holds_entries_def)
  from a assms(4) have "isEmptyEntry E sr i = spec_isEmptyEntry E sr i"
    by (intro isEmptyEntry_eq_spec) auto
  with enc(1) show "isEmptyEntry E sr i = Inr (es ! i = None)"
    by (simp add: spec_isEmptyEntry_encodes)
  from a assms(3,5) have "isEmptyEntry E sc i = spec_isEmptyEntry E sc i"
    by (intro isEmptyEntry_eq_spec) auto
  with enc(2) show "isEmptyEntry E sc i = Inr (es ! i = None)"
    by (simp add: spec_isEmptyEntry_encodes)
qed

text \<open>
  The entries (key 1, absent) in a row-wise baseline-hash buffer with 4-byte keys, where
  the absent entry carries the four bytes of the 32-bit sentinel, and in a columnar
  buffer whose first group column is 8 bytes wide, where it carries the eight bytes of
  the 64-bit sentinel.
\<close>

lemmas example_entries_defs =
  holds_entries_def encodes_entry_def deciding_place_def empty_mark_def stores_int_def
  int_bytes_def le_bytes_numeral

theorem isEmptyEntry_layouts_agree_witness:
  "holds_entries (example_Env 1)
     ((example_storage GroupByBaselineHash [(1, 10), (2 ^ 31 - 1, 0)])
        \<lparr>query_mem_desc :=
           (example_qmd GroupByBaselineHash False 2)\<lparr>group_col_compact_width := 4\<rparr>\<rparr>)
     [Some 1, None]
   \<and> holds_entries (example_Env 1)
       ((example_storage_columnar GroupByBaselineHash [(1, 10), (2 ^ 63 - 1, 0)])
          \<lparr>query_mem_desc :=
             (example_qmd GroupByBaselineHash True 2)\<lparr>group_col_compact_width := 4\<rparr>\<rparr>)
       [Some 1, None]
   \<and> isEmptyEntry (example_Env 1)
       ((example_storage GroupByBaselineHash [(1, 10), (2 ^ 31 - 1, 0)])
          \<lparr>query_mem_desc :=
             (example_qmd GroupByBaselineHash False 2)\<lparr>group_col_compact_width := 4\<rparr>\<rparr>) 0
     = Inr False
   \<and> isEmptyEntry (example_Env 1)
       ((example_storage_columnar GroupByBaselineHash [(1, 10), (2 ^ 63 - 1, 0)])
          \<lparr>query_mem_desc :=
             (example_qmd GroupByBaselineHash True 2)\<lparr>group_col_compact_width := 4\<rparr>\<rparr>) 0
     = Inr False
   \<and> isEmptyEntry (example_Env 1)
       ((example_storage GroupByBaselineHash [(1, 10), (2 ^ 31 - 1, 0)])
          \<lparr>query_mem_desc :=
             (example_qmd GroupByBaselineHash False 2)\<lparr>group_col_compact_width := 4\<rparr>\<rparr>) 1
     = Inr True
   \<and> isEmptyEntry (example_Env 1)
       ((example_storage_columnar GroupByBaselineHash [(1, 10), (2 ^ 63 - 1, 0)])
          \<lparr>query_mem_desc :=
             (example_qmd GroupByBaselineHash True 2)\<lparr>group_col_compact_width := 4\<rparr>\<rparr>) 1
     = Inr True"
proof -
  let ?sr = "(example_storage GroupByBaselineHash [(1, 10), (2 ^ 31 - 1, 0)])
        \<lparr>query_mem_desc :=
           (example_qmd GroupByBaselineHash False 2)\<lparr>group_col_compact_width := 4\<rparr>\<rparr>"
  let ?sc = "(example_storage_columnar GroupByBaselineHash [(1, 10), (2 ^ 63 - 1, 0)])
          \<lparr>query_mem_desc :=
             (example_qmd GroupByBaselineHash True 2)\<lparr>group_col_compact_width := 4\<rparr>\<rparr>"
  let ?E = "example_Env 1 :: int Env"
  let ?es = "[Some 1, None] :: int option list"
  have cases2: "j = 0 \<or> j = 1" if "j < 2" for j :: nat
    using that by linarith
  have h1: "\<not> didOutputColumnar (query_mem_desc ?sr)"
    and h2: "didOutputColumnar (query_mem_desc ?sc)"
    and h3: "getQueryDescriptionType (query_mem_desc ?sc)
               = getQueryDescriptionType (query_mem_desc ?sr)"
    and ty: "getQueryDescriptionType (query_mem_desc ?sr) \<noteq> NonGroupedAggregate"
      "getQueryDescriptionType (query_mem_desc ?sr) \<noteq> TableFunction"
    by (simp_all add: example_defs)
  have cr: "checks_pass ?sr j" and cc: "checks_pass ?sc j" for j
    by (simp_all add: example_spec_defs example_defs)
  have er0: "encodes_entry ?E ?sr 0 (Some 1)" and er1: "encodes_entry ?E ?sr 1 None"
    by (simp_all add: example_entries_defs example_spec_defs example_defs)
  have ec0: "encodes_entry ?E ?sc 0 (Some 1)" and ec1: "encodes_entry ?E ?sc 1 None"
    by (simp_all add: example_entries_defs example_spec_defs example_defs)
  have hr: "holds_entries ?E ?sr ?es"
    unfolding holds_entries_def
  proof (intro conjI allI impI)
    show "length ?es = getEntryCount (query_mem_desc ?sr)" by (simp add: example_defs)
  next
    fix j assume "j < length ?es"
    then have "j = 0 \<or> j = 1" using cases2 by simp
    then show "encodes_entry ?E ?sr j (?es ! j)" using er0 er1 by auto
  qed
  have hc: "holds_entries ?E ?sc ?es"
    unfolding holds_entries_def
  proof (intro conjI allI impI)
    show "length ?es = getEntryCount (query_mem_desc ?sc)" by (simp add: example_defs)
  next
    fix j assume "j < length ?es"
    then have "j = 0 \<or> j = 1" using cases2 by simp
    then show "encodes_entry ?E ?sc j (?es ! j)" using ec0 ec1 by auto
  qed
  from isEmptyEntry_layouts_agree [OF h1 h2 h3 cr [of 0] cc [of 0], where E = ?E and es = ?es]
       ty hr hc
  have "isEmptyEntry ?E ?sr 0 = Inr False \<and> isEmptyEntry ?E ?sc 0 = Inr False" by simp
  moreover
  from isEmptyEntry_layouts_agree [OF h1 h2 h3 cr [of 1] cc [of 1], where E = ?E and es = ?es]
       ty hr hc
  have "isEmptyEntry ?E ?sr 1 = Inr True \<and> isEmptyEntry ?E ?sc 1 = Inr True" by simp
  ultimately show ?thesis using hr hc by blast
qed

text \<open>
  C1 as stated covers every layout. For a TableFunction layout with one entry whose key is
  the 64-bit sentinel, the row-wise and the columnar buffer are the same bytes and encode
  the same absent entry; the row-wise test compares the key with the sentinel and returns
  true, the columnar test returns false without reading the buffer. And where a checked
  assertion fires on one side only there is no boolean to compare: a baseline-hash layout
  with 2-byte keys aborts in the row-wise test, which knows keys of 4 and 8 bytes only,
  while the columnar test reads the 8-byte group column.
\<close>

theorem isEmptyEntry_table_function_counterexample:
  "buff (example_storage TableFunction [(2 ^ 63 - 1, 0)])
     = buff (example_storage_columnar TableFunction [(2 ^ 63 - 1, 0)])
   \<and> query_mem_desc (example_storage_columnar TableFunction [(2 ^ 63 - 1, 0)])
       = (query_mem_desc (example_storage TableFunction [(2 ^ 63 - 1, 0)]))
           \<lparr>output_columnar := True\<rparr>
   \<and> first_key (example_Env 1) (example_storage TableFunction [(2 ^ 63 - 1, 0)]) 0
       = first_key (example_Env 1) (example_storage_columnar TableFunction [(2 ^ 63 - 1, 0)]) 0
   \<and> holds_entries (example_Env 1) (example_storage TableFunction [(2 ^ 63 - 1, 0)]) [None]
   \<and> holds_entries (example_Env 1) (example_storage_columnar TableFunction [(2 ^ 63 - 1, 0)])
       [None]
   \<and> isEmptyEntry (example_Env 1) (example_storage TableFunction [(2 ^ 63 - 1, 0)]) 0 = Inr True
   \<and> isEmptyEntry (example_Env 1) (example_storage_columnar TableFunction [(2 ^ 63 - 1, 0)]) 0
       = Inr False
   \<and> isEmptyEntry (example_Env 1)
       ((example_storage GroupByBaselineHash [(1, 10)])
          \<lparr>query_mem_desc :=
             (example_qmd GroupByBaselineHash False 1)\<lparr>group_col_compact_width := 2\<rparr>\<rparr>) 0
     = Inl CheckFailed
   \<and> isEmptyEntry (example_Env 1)
       ((example_storage_columnar GroupByBaselineHash [(1, 10)])
          \<lparr>query_mem_desc :=
             (example_qmd GroupByBaselineHash True 1)\<lparr>group_col_compact_width := 2\<rparr>\<rparr>) 0
     = Inr False"
  by (simp add: example_entries_defs example_spec_defs example_defs groupColWidth_def
        getGroupbyColCount_def)

subsection \<open>Binary search for the row count\<close>

lemma make_bin_search_loop_first_empty:
  assumes f: "\<forall>i<n. f i = Inr (P i)"
      and mono: "\<forall>i j. i \<le> j \<and> j < n \<and> P i \<longrightarrow> P j"
  shows "l \<le> r \<Longrightarrow> r < n \<Longrightarrow> P r \<Longrightarrow> (\<forall>i<l. \<not> P i)
           \<Longrightarrow> \<exists>k. make_bin_search_loop f l r = Some (Inr k) \<and> k \<le> r \<and> P k \<and> (\<forall>i<k. \<not> P i)"
proof (induction "r - l" arbitrary: l r rule: less_induct)
  case less
  show ?case
  proof (cases "l = r")
    case True
    with less.prems show ?thesis
      by (subst make_bin_search_loop.simps) auto
  next
    case False
    define c where "c = (l + r) div 2"
    from False less.prems(1) have lc: "l \<le> c" and cr: "c < r"
      by (auto simp: c_def)
    from cr less.prems(2) have cn: "c < n" by simp
    with f have fc: "f c = Inr (P c)" by simp
    show ?thesis
    proof (cases "P c")
      case True
      have "\<exists>k. make_bin_search_loop f l c = Some (Inr k) \<and> k \<le> c \<and> P k \<and> (\<forall>i<k. \<not> P i)"
        using less.hyps [of c l] lc cr cn True less.prems(4) by auto
      then obtain k where k: "make_bin_search_loop f l c = Some (Inr k)" "k \<le> c" "P k"
        "\<forall>i<k. \<not> P i" by blast
      have "make_bin_search_loop f l r = make_bin_search_loop f l c"
        using False fc True by (subst make_bin_search_loop.simps) (simp add: c_def)
      with k cr show ?thesis by auto
    next
      case notP: False
      have below: "\<forall>i<c + 1. \<not> P i"
      proof (intro allI impI)
        fix i assume "i < c + 1"
        then have "i \<le> c" by simp
        with mono cn notP show "\<not> P i" by blast
      qed
      have "\<exists>k. make_bin_search_loop f (c + 1) r = Some (Inr k) \<and> k \<le> r \<and> P k \<and> (\<forall>i<k. \<not> P i)"
        using less.hyps [of r "c + 1"] lc cr less.prems(2,3) below by auto
      moreover have "make_bin_search_loop f l r = make_bin_search_loop f (c + 1) r"
        using False fc notP by (subst make_bin_search_loop.simps) (simp add: c_def)
      ultimately show ?thesis by auto
    qed
  qed
qed

lemma make_bin_search_first_empty:
  assumes f: "\<forall>i<n. f i = Inr (P i)"
      and mono: "\<forall>i j. i \<le> j \<and> j < n \<and> P i \<longrightarrow> P j"
      and n: "0 < n"
  shows "\<exists>k. make_bin_search 0 n f = Some (Inr k) \<and> k \<le> n \<and> (\<forall>i<k. \<not> P i)
             \<and> (\<forall>i. k \<le> i \<and> i < n \<longrightarrow> P i)"
proof (cases "P (n - 1)")
  case False
  have "\<forall>i<n. \<not> P i"
  proof (intro allI impI)
    fix i assume "i < n"
    then have "i \<le> n - 1" "n - 1 < n" by auto
    with mono False show "\<not> P i" by blast
  qed
  moreover have "make_bin_search 0 n f = Some (Inr n)"
    using f n False by (simp add: make_bin_search_def size_t_pred_def)
  ultimately show ?thesis by auto
next
  case True
  from make_bin_search_loop_first_empty [OF f mono, of 0 "n - 1"] True n
  obtain k where k: "make_bin_search_loop f 0 (n - 1) = Some (Inr k)" "k \<le> n - 1" "P k"
    "\<forall>i<k. \<not> P i" by auto
  have "make_bin_search 0 n f = Some (Inr k)"
    using f n True k(1) by (simp add: make_bin_search_def size_t_pred_def)
  moreover have "\<forall>i. k \<le> i \<and> i < n \<longrightarrow> P i"
    using mono k(3) by blast
  ultimately show ?thesis using k(2,4) n by auto
qed

lemma isEmptyEntry_projection:
  assumes "getQueryDescriptionType (query_mem_desc s) = Projection"
      and "getEffectiveKeyWidth (query_mem_desc s) = 8"
      and "isEmptyEntry E s i = Inr b"
  shows "(if didOutputColumnar (query_mem_desc s)
          then read_equals (load_int (buff s) (8 * i) 8) (EMPTY_KEY_64 E)
          else read_equals (load_int (buff s) (row_ptr_rowwise E (query_mem_desc s) i) 8)
                 (EMPTY_KEY_64 E)) = Inr b"
  using assms
  by (auto simp: isEmptyEntry_def isEmptyEntry_buff_def isEmptyEntryColumnar_def Let_def
           split: if_splits)

text \<open>
  C8 (amended). For every row-wise or columnar Projection layout with effective key width 8
  in which \<^verbatim>\<open>isEmptyEntry\<close> decides every entry and no empty entry precedes a valid
  one, \<^verbatim>\<open>binSearchRowCount()\<close> returns the index of the first empty entry (the entry
  count when no entry is empty), that is, the count of leading valid entries. The search
  returns: it is not only correct if it does.
\<close>

theorem binSearchRowCount_first_empty:
  assumes ty: "getQueryDescriptionType (query_mem_desc s) = Projection"
      and kw: "getEffectiveKeyWidth (query_mem_desc s) = 8"
      and total: "\<forall>i<getEntryCount (query_mem_desc s). \<exists>b. isEmptyEntry E s i = Inr b"
      and packed: "\<forall>i j. i \<le> j \<and> j < getEntryCount (query_mem_desc s) \<and>
                     isEmptyEntry E s i = Inr True \<longrightarrow> isEmptyEntry E s j = Inr True"
  shows "\<exists>k. binSearchRowCount E s = Some (Inr k) \<and> k \<le> getEntryCount (query_mem_desc s)
           \<and> (\<forall>i<k. isEmptyEntry E s i = Inr False)
           \<and> (\<forall>i. k \<le> i \<and> i < getEntryCount (query_mem_desc s)
                  \<longrightarrow> isEmptyEntry E s i = Inr True)"
proof (cases "getEntryCount (query_mem_desc s) = 0")
  case True
  with ty kw show ?thesis by (simp add: binSearchRowCount_def)
next
  case False
  define n where "n = getEntryCount (query_mem_desc s)"
  define P where "P i = (isEmptyEntry E s i = Inr True)" for i
  define f where "f = (\<lambda>idx. if didOutputColumnar (query_mem_desc s)
          then read_equals (load_int (buff s) (8 * idx) 8) (EMPTY_KEY_64 E)
          else read_equals (load_int (buff s) (row_ptr_rowwise E (query_mem_desc s) idx) 8)
                 (EMPTY_KEY_64 E))"
  have val: "isEmptyEntry E s i = Inr (P i)" if "i < n" for i
  proof -
    from total that obtain b where "isEmptyEntry E s i = Inr b" by (auto simp: n_def)
    then show ?thesis by (cases b) (auto simp: P_def)
  qed
  have f: "\<forall>i<n. f i = Inr (P i)"
    using isEmptyEntry_projection [OF ty kw val] by (simp add: f_def)
  have mono: "\<forall>i j. i \<le> j \<and> j < n \<and> P i \<longrightarrow> P j"
    using packed by (simp add: P_def n_def)
  from False have n: "0 < n" by (simp add: n_def)
  from make_bin_search_first_empty [OF f mono n]
  obtain k where k: "make_bin_search 0 n f = Some (Inr k)" "k \<le> n" "\<forall>i<k. \<not> P i"
    "\<forall>i. k \<le> i \<and> i < n \<longrightarrow> P i" by blast
  have "binSearchRowCount E s = make_bin_search 0 n f"
    using ty kw False by (auto simp: binSearchRowCount_def n_def f_def Let_def)
  moreover have "\<forall>i<k. isEmptyEntry E s i = Inr False"
    using k(2,3) val by auto
  moreover have "\<forall>i. k \<le> i \<and> i < n \<longrightarrow> isEmptyEntry E s i = Inr True"
    using k(4) by (simp add: P_def)
  ultimately show ?thesis using k(1,2) by (auto simp: n_def)
qed


theorem binSearchRowCount_first_empty_witness:
  "binSearchRowCount (example_Env 1)
     (example_storage Projection [(1, 10), (2, 20), (2 ^ 63 - 1, 0), (2 ^ 63 - 1, 0)])
   = Some (Inr 2)"
proof -
  let ?s = "example_storage Projection [(1, 10), (2, 20), (2 ^ 63 - 1, 0), (2 ^ 63 - 1, 0)]"
  let ?E = "example_Env 1 :: int Env"
  have e0: "isEmptyEntry ?E ?s 0 = Inr False" by (simp add: example_defs)
  have e1: "isEmptyEntry ?E ?s 1 = Inr False" by (simp add: example_defs)
  have e2: "isEmptyEntry ?E ?s 2 = Inr True" by (simp add: example_defs)
  have e3: "isEmptyEntry ?E ?s 3 = Inr True" by (simp add: example_defs)
  have n: "getEntryCount (query_mem_desc ?s) = 4"
    by (simp add: example_storage_def example_qmd_def getEntryCount_def)
  have tot: "isEmptyEntry ?E ?s i = Inr (2 \<le> i)" if "i < 4" for i
  proof -
    from that consider "i = 0" | "i = 1" | "i = 2" | "i = 3" by linarith
    then show ?thesis
    proof cases
      case 1 then show ?thesis using e0 by simp
    next
      case 2 then show ?thesis using e1 by simp
    next
      case 3 then show ?thesis using e2 by simp
    next
      case 4 then show ?thesis using e3 by simp
    qed
  qed
  have ty: "getQueryDescriptionType (query_mem_desc ?s) = Projection"
    by (simp add: example_storage_def example_qmd_def getQueryDescriptionType_def)
  have kw: "getEffectiveKeyWidth (query_mem_desc ?s) = 8"
    by (simp add: example_storage_def example_qmd_def getEffectiveKeyWidth_def)
  have total: "\<forall>i<getEntryCount (query_mem_desc ?s). \<exists>b. isEmptyEntry ?E ?s i = Inr b"
    unfolding n using tot by blast
  have packed: "\<forall>i j. i \<le> j \<and> j < getEntryCount (query_mem_desc ?s) \<and>
                  isEmptyEntry ?E ?s i = Inr True
                  \<longrightarrow> isEmptyEntry ?E ?s j = Inr True"
    unfolding n
  proof (intro allI impI)
    fix i j :: nat
    assume a: "i \<le> j \<and> j < 4 \<and> isEmptyEntry ?E ?s i = Inr True"
    then have "i < 4" "j < 4" by auto
    from a tot [OF \<open>i < 4\<close>] have "2 \<le> i" by simp
    with a have "2 \<le> j" by simp
    with tot [OF \<open>j < 4\<close>] show "isEmptyEntry ?E ?s j = Inr True" by simp
  qed
  from binSearchRowCount_first_empty [OF ty kw total packed]
  obtain k where k: "binSearchRowCount ?E ?s = Some (Inr k)"
    "\<forall>i<k. isEmptyEntry ?E ?s i = Inr False"
    "\<forall>i. k \<le> i \<and> i < getEntryCount (query_mem_desc ?s)
        \<longrightarrow> isEmptyEntry ?E ?s i = Inr True"
    by blast
  have "\<not> 2 < k" using k(2) e2 by auto
  moreover have "\<not> k \<le> 1" using k(3) e1 unfolding n by auto
  ultimately have "k = 2" by arith
  with k(1) show ?thesis by simp
qed

text \<open>
  C8 as stated also covers table-function layouts. There the first checked assertion of
  \<^verbatim>\<open>binSearchRowCount\<close> fires, although both entries are valid and the claim promises
  the row count 2.
\<close>

theorem binSearchRowCount_table_function_counterexample:
  "getQueryDescriptionType (query_mem_desc (example_storage TableFunction [(1, 10), (2, 20)]))
     = TableFunction
   \<and> getEntryCount (query_mem_desc (example_storage TableFunction [(1, 10), (2, 20)])) = 2
   \<and> isEmptyEntry (example_Env 1) (example_storage TableFunction [(1, 10), (2, 20)]) 0 = Inr False
   \<and> isEmptyEntry (example_Env 1) (example_storage TableFunction [(1, 10), (2, 20)]) 1 = Inr False
   \<and> binSearchRowCount (example_Env 1) (example_storage TableFunction [(1, 10), (2, 20)])
       = Some (Inl CheckFailed)"
proof -
  have "isEmptyEntry (example_Env 1) (example_storage TableFunction [(1, 10), (2, 20)]) 0
          = Inr False"
    by (simp add: example_defs)
  moreover
  have "isEmptyEntry (example_Env 1) (example_storage TableFunction [(1, 10), (2, 20)]) 1
          = Inr False"
    by (simp add: example_defs)
  ultimately show ?thesis
    by (simp add: binSearchRowCount_def example_storage_def example_qmd_def
          getQueryDescriptionType_def getEntryCount_def)
qed


subsection \<open>Resolving an entry index to a storage\<close>

lemma getStorageIndex_loop_resolves:
  "k < length app \<Longrightarrow>
   sum_list (map (\<lambda>s. getEntryCount (query_mem_desc s)) (take k app)) \<le> f \<Longrightarrow>
   f < sum_list (map (\<lambda>s. getEntryCount (query_mem_desc s)) (take k app))
         + getEntryCount (query_mem_desc (app ! k)) \<Longrightarrow>
   getStorageIndex_loop app i0 f
     = Inr (i0 + k + 1, f - sum_list (map (\<lambda>s. getEntryCount (query_mem_desc s)) (take k app)))"
proof (induction app arbitrary: k i0 f)
  case Nil
  then show ?case by simp
next
  case (Cons s rest)
  show ?case
  proof (cases k)
    case 0
    with Cons.prems show ?thesis by simp
  next
    case (Suc k')
    with Cons.prems have "\<not> f < getEntryCount (query_mem_desc s)" by simp
    moreover
    from Suc Cons.prems
    have "getStorageIndex_loop rest (i0 + 1) (f - getEntryCount (query_mem_desc s))
            = Inr (i0 + 1 + k' + 1,
                   f - getEntryCount (query_mem_desc s)
                     - sum_list (map (\<lambda>s. getEntryCount (query_mem_desc s)) (take k' rest)))"
      by (intro Cons.IH) auto
    ultimately show ?thesis using Suc by simp
  qed
qed

text \<open>
  Random access with no permutation hands the logical index itself to the lookup and
  materialises the row from the storage and the local index the lookup returns.
\<close>

lemma getRowAt_resolved:
  assumes "i < entryCount rs" and "permutation rs = []" and "findStorage rs i = Inr slr"
  shows "getRowAt E rs i
           = row_of_entry E rs (storage_ptr slr) (fixedup_entry_idx slr) i True False []"
  using assms
  by (simp add: getRowAt_def permuted_idx_def getRowAt_entry_def row_of_entry_def Let_def)

lemma count_valid_entries_filter:
  "\<forall>i\<in>set is. isRowAtEmpty E rs i = Inr (emp i) \<Longrightarrow>
   count_valid_entries E rs is = Inr (length (filter (\<lambda>i. \<not> emp i) is))"
  by (induction "is") auto

text \<open>
  C5. For every result set whose primary storage has entry count \<open>N0\<close> and whose
  \<open>k\<close>-th appended storage has entry count \<open>Nk\<close>, resolving a global entry index
  \<open>i\<close> yields the primary storage (ordinal 0) with local index \<open>i\<close> when
  \<open>i < N0\<close>, and otherwise the appended storage in whose range \<open>i\<close> falls, with local
  index \<open>i\<close> minus the sum of the preceding entry counts; and with no permutation
  \<^verbatim>\<open>getRowAt(i)\<close> is the row materialised from the storage and the local index the
  lookup returns for \<open>i\<close>. In particular, with storages of 5 and 3 entries, all valid,
  and no LIMIT or OFFSET, \<open>rowCount()\<close> is 8, entry 6 resolves into the second storage
  at local index 1, and \<^verbatim>\<open>getRowAt(6)\<close> is the row of the second storage at local
  index 1.
\<close>

theorem storage_lookup_resolves:
  "(\<forall>s0. storage rs = Some s0 \<and> i < getEntryCount (query_mem_desc s0)
      \<longrightarrow> getStorageIndex rs i = Inr (0, i)
        \<and> findStorage rs i = Inr \<lparr>storage_ptr = s0, fixedup_entry_idx = i, storage_idx = 0\<rparr>)
   \<and> (\<forall>k. storage rs \<noteq> None \<and> k < length (appended_storage rs) \<and>
           entries_before rs k \<le> i \<and>
           i < entries_before rs k + getEntryCount (query_mem_desc (appended_storage rs ! k))
      \<longrightarrow> getStorageIndex rs i = Inr (k + 1, i - entries_before rs k)
        \<and> findStorage rs i = Inr \<lparr>storage_ptr = appended_storage rs ! k,
                                   fixedup_entry_idx = i - entries_before rs k,
                                   storage_idx = k + 1\<rparr>)
   \<and> (\<forall>s0 s1. storage rs = Some s0 \<and> appended_storage rs = [s1] \<and>
           getEntryCount (query_mem_desc s0) = 5 \<and> getEntryCount (query_mem_desc s1) = 3 \<and>
           entryCount rs = 8 \<and> drop_first rs = 0 \<and> keep_first rs = 0 \<and>
           (\<forall>j<8. isRowAtEmpty E rs j = Inr False)
      \<longrightarrow> rowCount E rs = Inr 8
        \<and> findStorage rs 6 = Inr \<lparr>storage_ptr = s1, fixedup_entry_idx = 1, storage_idx = 1\<rparr>)
   \<and> (\<forall>slr. i < entryCount rs \<and> permutation rs = [] \<and> findStorage rs i = Inr slr
      \<longrightarrow> getRowAt E rs i
            = row_of_entry E rs (storage_ptr slr) (fixedup_entry_idx slr) i True False [])
   \<and> (\<forall>s0 s1. storage rs = Some s0 \<and> appended_storage rs = [s1] \<and>
           getEntryCount (query_mem_desc s0) = 5 \<and> getEntryCount (query_mem_desc s1) = 3 \<and>
           entryCount rs = 8 \<and> permutation rs = []
      \<longrightarrow> getRowAt E rs 6 = row_of_entry E rs s1 1 6 True False [])"
proof (intro conjI allI impI)
  fix s0
  assume a: "storage rs = Some s0 \<and> i < getEntryCount (query_mem_desc s0)"
  then show "getStorageIndex rs i = Inr (0, i)" by (simp add: getStorageIndex_def)
  with a show "findStorage rs i = Inr \<lparr>storage_ptr = s0, fixedup_entry_idx = i, storage_idx = 0\<rparr>"
    by (simp add: findStorage_def)
next
  fix k
  assume a: "storage rs \<noteq> None \<and> k < length (appended_storage rs) \<and>
           entries_before rs k \<le> i \<and>
           i < entries_before rs k + getEntryCount (query_mem_desc (appended_storage rs ! k))"
  then obtain s0 where s0: "storage rs = Some s0" by auto
  let ?n0 = "getEntryCount (query_mem_desc s0)"
  let ?pre = "sum_list (map (\<lambda>s. getEntryCount (query_mem_desc s)) (take k (appended_storage rs)))"
  from a s0 have eb: "entries_before rs k = ?n0 + ?pre" by (simp add: entries_before_def)
  from a eb have ge: "\<not> i < ?n0" by simp
  from a eb have "getStorageIndex_loop (appended_storage rs) 0 (i - ?n0)
                    = Inr (0 + k + 1, i - ?n0 - ?pre)"
    by (intro getStorageIndex_loop_resolves) auto
  with s0 ge eb show g: "getStorageIndex rs i = Inr (k + 1, i - entries_before rs k)"
    by (simp add: getStorageIndex_def)
  from a show "findStorage rs i = Inr \<lparr>storage_ptr = appended_storage rs ! k,
                                   fixedup_entry_idx = i - entries_before rs k,
                                   storage_idx = k + 1\<rparr>"
    by (simp add: findStorage_def g)
next
  fix s0 s1
  assume a: "storage rs = Some s0 \<and> appended_storage rs = [s1] \<and>
           getEntryCount (query_mem_desc s0) = 5 \<and> getEntryCount (query_mem_desc s1) = 3 \<and>
           entryCount rs = 8 \<and> drop_first rs = 0 \<and> keep_first rs = 0 \<and>
           (\<forall>j<8. isRowAtEmpty E rs j = Inr False)"
  then have "\<forall>j\<in>set [0..<entryCount rs]. isRowAtEmpty E rs j = Inr ((\<lambda>_. False) j)" by simp
  from count_valid_entries_filter [OF this]
  have "count_valid_entries E rs [0..<entryCount rs] = Inr 8" using a by simp
  with a show "rowCount E rs = Inr 8"
    by (simp add: rowCount_def get_truncated_row_count_def)
  from a show "findStorage rs 6 = Inr \<lparr>storage_ptr = s1, fixedup_entry_idx = 1, storage_idx = 1\<rparr>"
    by (simp add: findStorage_def getStorageIndex_def)
next
  fix slr
  assume "i < entryCount rs \<and> permutation rs = [] \<and> findStorage rs i = Inr slr"
  then show "getRowAt E rs i
               = row_of_entry E rs (storage_ptr slr) (fixedup_entry_idx slr) i True False []"
    by (simp add: getRowAt_resolved)
next
  fix s0 s1
  assume a: "storage rs = Some s0 \<and> appended_storage rs = [s1] \<and>
           getEntryCount (query_mem_desc s0) = 5 \<and> getEntryCount (query_mem_desc s1) = 3 \<and>
           entryCount rs = 8 \<and> permutation rs = []"
  then have "findStorage rs 6 = Inr \<lparr>storage_ptr = s1, fixedup_entry_idx = 1, storage_idx = 1\<rparr>"
    by (simp add: findStorage_def getStorageIndex_def)
  with a show "getRowAt E rs 6 = row_of_entry E rs s1 1 6 True False []"
    by (simp add: getRowAt_resolved)
qed


theorem storage_lookup_resolves_witness:
  "rowCount (example_Env 1)
     (example_ResultSet Projection [(0, 10), (1, 11), (2, 12), (3, 13), (4, 14)]
        [[(5, 15), (6, 16), (7, 17)]]) = Inr 8
   \<and> findStorage
        (example_ResultSet Projection [(0, 10), (1, 11), (2, 12), (3, 13), (4, 14)]
           [[(5, 15), (6, 16), (7, 17)]]) 6
       = Inr \<lparr>storage_ptr = example_storage Projection [(5, 15), (6, 16), (7, 17)],
               fixedup_entry_idx = 1, storage_idx = 1\<rparr>
   \<and> getStorageIndex
        (example_ResultSet Projection [(0, 10), (1, 11), (2, 12), (3, 13), (4, 14)]
           [[(5, 15), (6, 16), (7, 17)]]) 2 = Inr (0, 2)
   \<and> getStorageIndex
        (example_ResultSet Projection [(0, 10), (1, 11), (2, 12), (3, 13), (4, 14)]
           [[(5, 15), (6, 16), (7, 17)]]) 7 = Inr (1, 2)
   \<and> getRowAt (example_Env 1)
        (example_ResultSet Projection [(0, 10), (1, 11), (2, 12), (3, 13), (4, 14)]
           [[(5, 15), (6, 16), (7, 17)]]) 6
       = row_of_entry (example_Env 1)
           (example_ResultSet Projection [(0, 10), (1, 11), (2, 12), (3, 13), (4, 14)]
              [[(5, 15), (6, 16), (7, 17)]])
           (example_storage Projection [(5, 15), (6, 16), (7, 17)]) 1 6 True False []
   \<and> getRowAt (example_Env 1)
        (example_ResultSet Projection [(0, 10), (1, 11), (2, 12), (3, 13), (4, 14)]
           [[(5, 15), (6, 16), (7, 17)]]) 6 = Inr [Decoded 16]"
proof -
  let ?s0 = "example_storage Projection [(0, 10), (1, 11), (2, 12), (3, 13), (4, 14)]"
  let ?s1 = "example_storage Projection [(5, 15), (6, 16), (7, 17)]"
  let ?rs = "example_ResultSet Projection [(0, 10), (1, 11), (2, 12), (3, 13), (4, 14)]
               [[(5, 15), (6, 16), (7, 17)]]"
  let ?E = "example_Env 1 :: int Env"
  have st: "storage ?rs = Some ?s0" "appended_storage ?rs = [?s1]"
    "drop_first ?rs = 0" "keep_first ?rs = 0"
    by (simp_all add: example_ResultSet_def)
  have n: "getEntryCount (query_mem_desc ?s0) = 5" "getEntryCount (query_mem_desc ?s1) = 3"
    "entryCount ?rs = 8"
    by (simp_all add: example_ResultSet_def example_storage_def example_qmd_def
          getEntryCount_def entryCount_def)
  have valid: "isRowAtEmpty ?E ?rs j = Inr False" if "j < 8" for j
  proof -
    from that consider "j = 0" | "j = 1" | "j = 2" | "j = 3" | "j = 4" | "j = 5" | "j = 6"
      | "j = 7" by linarith
    then show ?thesis
      by cases
         (simp_all add: isRowAtEmpty_def entryCount_def permuted_idx_def findStorage_def
            getStorageIndex_def example_ResultSet_def example_defs)
  qed
  have before: "entries_before ?rs 0 = 5"
    by (simp add: entries_before_def example_ResultSet_def example_storage_def example_qmd_def
          getEntryCount_def)
  from storage_lookup_resolves [of ?rs 6 ?E] st n valid
  have "rowCount ?E ?rs = Inr 8
        \<and> findStorage ?rs 6 = Inr \<lparr>storage_ptr = ?s1, fixedup_entry_idx = 1, storage_idx = 1\<rparr>"
    by blast
  moreover
  from storage_lookup_resolves [of ?rs 2 ?E] st n
  have "getStorageIndex ?rs 2 = Inr (0, 2)" by simp
  moreover
  from storage_lookup_resolves [of ?rs 7 ?E] st n before
  have "getStorageIndex ?rs 7 = Inr (1, 2)" by simp
  moreover
  have perm: "permutation ?rs = []" by (simp add: example_ResultSet_def)
  from storage_lookup_resolves [of ?rs 6 ?E] st n perm
  have row: "getRowAt ?E ?rs 6 = row_of_entry ?E ?rs ?s1 1 6 True False []" by blast
  moreover
  have "row_of_entry ?E ?rs ?s1 1 6 True False [] = Inr [Decoded 16]"
    by (simp add: row_of_entry_def example_ResultSet_def example_defs)
  with row have "getRowAt ?E ?rs 6 = Inr [Decoded 16]" by simp
  ultimately show ?thesis by blast
qed


subsection \<open>Sequential iteration\<close>

text \<open>The two recursive equations are unfolded by hand, one turn at a time.\<close>

declare advanceCursorToNextEntry_loop.simps [simp del]
declare getNextRowImpl.simps [simp del]

text \<open>Nothing but the cursor functions reads the cursor.\<close>

lemma entryCount_cursor [simp]:
  "entryCount (rs\<lparr>crt_row_buff_idx := c\<rparr>) = entryCount rs"
  "entryCount (rs\<lparr>fetched_so_far := f\<rparr>) = entryCount rs"
  by (simp_all add: entryCount_def)

lemma permuted_idx_cursor [simp]:
  "permuted_idx (rs\<lparr>crt_row_buff_idx := c\<rparr>) p = permuted_idx rs p"
  "permuted_idx (rs\<lparr>fetched_so_far := f\<rparr>) p = permuted_idx rs p"
  by (simp_all add: permuted_idx_def)

lemma findStorage_cursor [simp]:
  "findStorage (rs\<lparr>crt_row_buff_idx := c\<rparr>) e = findStorage rs e"
  "findStorage (rs\<lparr>fetched_so_far := f\<rparr>) e = findStorage rs e"
  by (auto simp: findStorage_def getStorageIndex_def split: sum.splits option.splits)

lemma isRowAtEmpty_cursor [simp]:
  "isRowAtEmpty E (rs\<lparr>crt_row_buff_idx := c\<rparr>) p = isRowAtEmpty E rs p"
  "isRowAtEmpty E (rs\<lparr>fetched_so_far := f\<rparr>) p = isRowAtEmpty E rs p"
  by (auto simp: isRowAtEmpty_def split: sum.splits)

lemma getRowAt_loop_cursor [simp]:
  "getRowAt_loop E (rs\<lparr>crt_row_buff_idx := c\<rparr>) st bs l g ts dd fx sk kp tgts ti ai ptr
     = getRowAt_loop E rs st bs l g ts dd fx sk kp tgts ti ai ptr"
  "getRowAt_loop E (rs\<lparr>fetched_so_far := f\<rparr>) st bs l g ts dd fx sk kp tgts ti ai ptr
     = getRowAt_loop E rs st bs l g ts dd fx sk kp tgts ti ai ptr"
  by (induction tgts arbitrary: ti ai ptr; simp add: Let_def cong: sum.case_cong if_cong)+

lemma getRowAt_entry_cursor [simp]:
  "getRowAt_entry E (rs\<lparr>crt_row_buff_idx := c\<rparr>) e ts dd fx sk = getRowAt_entry E rs e ts dd fx sk"
  "getRowAt_entry E (rs\<lparr>fetched_so_far := f\<rparr>) e ts dd fx sk = getRowAt_entry E rs e ts dd fx sk"
  by (auto simp: getRowAt_entry_def Let_def split: sum.splits option.splits bool.splits)

lemma row_at_cursor [simp]:
  "row_at E (rs\<lparr>crt_row_buff_idx := c\<rparr>) p ts dd = row_at E rs p ts dd"
  "row_at E (rs\<lparr>fetched_so_far := f\<rparr>) p ts dd = row_at E rs p ts dd"
  by (auto simp: row_at_def split: sum.splits)

lemma row_is_valid_cursor [simp]:
  "row_is_valid E (rs\<lparr>crt_row_buff_idx := c\<rparr>) = row_is_valid E rs"
  "row_is_valid E (rs\<lparr>fetched_so_far := f\<rparr>) = row_is_valid E rs"
  by (simp_all add: row_is_valid_def fun_eq_iff)

text \<open>One turn of the loop of the cursor, in terms of \<open>isRowAtEmpty\<close>.\<close>

lemma advance_loop_step:
  "c < entryCount rs \<Longrightarrow>
   advanceCursorToNextEntry_loop E rs c =
     (case isRowAtEmpty E rs c of
        Inl e \<Rightarrow> Inl e
      | Inr b \<Rightarrow> if b then advanceCursorToNextEntry_loop E rs (c + 1) else Inr c)"
  by (subst advanceCursorToNextEntry_loop.simps)
     (simp add: isRowAtEmpty_def split: sum.splits)

lemma advance_loop_stop:
  "\<not> c < entryCount rs \<Longrightarrow> advanceCursorToNextEntry_loop E rs c = Inr c"
  by (subst advanceCursorToNextEntry_loop.simps) simp

lemma decided_valid:
  "decided E rs \<Longrightarrow> p < entryCount rs \<Longrightarrow> isRowAtEmpty E rs p = Inr (\<not> row_is_valid E rs p)"
  by (auto simp: decided_def row_is_valid_def)

lemma filter_upt_Cons:
  "filter P [c..<n] = p # W \<Longrightarrow> c \<le> p \<and> p < n \<and> P p \<and> filter P [Suc p..<n] = W"
proof (induction "n - c" arbitrary: c)
  case 0
  then show ?case by simp
next
  case (Suc d)
  then have cn: "c < n" by simp
  then have upt: "[c..<n] = c # [Suc c..<n]" by (simp add: upt_conv_Cons)
  show ?case
  proof (cases "P c")
    case True
    with Suc.prems upt cn show ?thesis by auto
  next
    case False
    with Suc.prems upt have "filter P [Suc c..<n] = p # W" by simp
    moreover from Suc.hyps(2) have "d = n - Suc c" by simp
    ultimately have "Suc c \<le> p \<and> p < n \<and> P p \<and> filter P [Suc p..<n] = W"
      by (rule Suc.hyps(1) [rotated])
    then show ?thesis by simp
  qed
qed

lemma advance_loop_first_valid:
  "decided E rs \<Longrightarrow> c \<le> entryCount rs \<Longrightarrow>
   advanceCursorToNextEntry_loop E rs c =
     Inr (case filter (row_is_valid E rs) [c..<entryCount rs] of
            [] \<Rightarrow> entryCount rs | p # W \<Rightarrow> p)"
proof (induction "entryCount rs - c" arbitrary: c)
  case 0
  then show ?case by (simp add: advance_loop_stop)
next
  case (Suc d)
  then have cn: "c < entryCount rs" by simp
  then have upt: "[c..<entryCount rs] = c # [Suc c..<entryCount rs]" by (simp add: upt_conv_Cons)
  show ?case
  proof (cases "row_is_valid E rs c")
    case True
    with Suc.prems cn upt show ?thesis
      by (simp add: advance_loop_step decided_valid)
  next
    case False
    from Suc.hyps(2) have "d = entryCount rs - Suc c" by simp
    from Suc.hyps(1) [OF this Suc.prems(1)] cn
    have "advanceCursorToNextEntry_loop E rs (Suc c) =
            Inr (case filter (row_is_valid E rs) [Suc c..<entryCount rs] of
                   [] \<Rightarrow> entryCount rs | p # W \<Rightarrow> p)"
      by simp
    with False Suc.prems cn upt show ?thesis
      by (simp add: advance_loop_step decided_valid)
  qed
qed

lemma advanceCursorToNextEntry_first_valid:
  assumes "decided E rs" and "crt_row_buff_idx rs \<le> entryCount rs"
  shows "advanceCursorToNextEntry E rs =
           (case filter (row_is_valid E rs) [crt_row_buff_idx rs..<entryCount rs] of
              [] \<Rightarrow> Inr (entryCount rs, rs\<lparr>crt_row_buff_idx := entryCount rs\<rparr>)
            | p # W \<Rightarrow>
                (case permuted_idx rs p of
                   Inl e \<Rightarrow> Inl e
                 | Inr entry_idx \<Rightarrow> Inr (entry_idx, rs\<lparr>crt_row_buff_idx := p\<rparr>)))"
proof (cases "filter (row_is_valid E rs) [crt_row_buff_idx rs..<entryCount rs]")
  case Nil
  with assms show ?thesis
    by (simp add: advanceCursorToNextEntry_def advance_loop_first_valid entryCount_def)
next
  case (Cons p W)
  from filter_upt_Cons [OF Cons] have pN: "p < entryCount rs" by simp
  have loop: "advanceCursorToNextEntry_loop E rs (crt_row_buff_idx rs) = Inr p"
    using assms Cons by (simp add: advance_loop_first_valid)
  show ?thesis
  proof (cases "permutation rs = []")
    case True
    with loop Cons show ?thesis
      by (simp add: advanceCursorToNextEntry_def permuted_idx_def)
  next
    case False
    with pN have "p < length (permutation rs)" by (simp add: entryCount_def)
    with loop Cons False show ?thesis
      by (simp add: advanceCursorToNextEntry_def permuted_idx_def)
  qed
qed


lemma decided_cursor [simp]:
  "decided E (rs\<lparr>crt_row_buff_idx := c\<rparr>) = decided E rs"
  "decided E (rs\<lparr>fetched_so_far := f\<rparr>) = decided E rs"
  by (simp_all add: decided_def)

lemma permuted_idx_in_range:
  "p < entryCount rs \<Longrightarrow> \<exists>entry_idx. permuted_idx rs p = Inr entry_idx"
  by (cases "permutation rs = []") (auto simp: permuted_idx_def entryCount_def)

text \<open>
  One call of \<^verbatim>\<open>getNextRowImpl\<close> that is not stopped by the limit: with \<open>W\<close> the
  valid positions from the cursor on, it consumes \<open>drop_first - fetched_so_far\<close> of them
  without returning them and returns the row of the next one, or it runs out of entries.
  The sum of OFFSET and LIMIT is assumed not to wrap.
\<close>

lemma unat_sum_no_wrap:
  "unat (d :: 64 word) + unat k < 2 ^ 64 \<Longrightarrow> unat (d + k) = unat d + unat k"
  using unat_add_lem [of d k] by simp

lemma getNextRowImpl_call:
  assumes "decided E rs" and "crt_row_buff_idx rs \<le> entryCount rs"
      and "\<not> (keep_first rs \<noteq> 0 \<and>
              unat (drop_first rs) + unat (keep_first rs) \<le> fetched_so_far rs)"
      and "unat (drop_first rs) + unat (keep_first rs) < 2 ^ 64"
  shows "getNextRowImpl E rs ts dd =
     (let W = filter (row_is_valid E rs) [crt_row_buff_idx rs..<entryCount rs];
          m = unat (drop_first rs) - fetched_so_far rs
      in if m < length W then
           (case row_at E rs (W ! m) ts dd of
              Inl e \<Rightarrow> Inl e
            | Inr row \<Rightarrow>
                if row = [] then Inl CheckFailed
                else Inr (row, rs\<lparr>crt_row_buff_idx := W ! m + 1,
                                   fetched_so_far := fetched_so_far rs + m + 1\<rparr>))
         else Inr ([], rs\<lparr>crt_row_buff_idx := entryCount rs,
                            fetched_so_far := fetched_so_far rs + length W\<rparr>))"
  using assms
proof (induction "unat (drop_first rs) - fetched_so_far rs" arbitrary: rs rule: less_induct)
  case less
  define W where "W = filter (row_is_valid E rs) [crt_row_buff_idx rs..<entryCount rs]"
  define m where "m = unat (drop_first rs) - fetched_so_far rs"
  note adv = advanceCursorToNextEntry_first_valid [OF less.prems(1,2), folded W_def]
  note sum = unat_sum_no_wrap [OF less.prems(4)]
  have kpos: "keep_first rs \<noteq> 0 \<Longrightarrow> 0 < unat (keep_first rs)"
    by (simp add: unat_gt_0)
  have not_stop: "\<not> (keep_first rs \<noteq> 0 \<and>
                        unat (drop_first rs + keep_first rs) \<le> fetched_so_far rs)"
    using less.prems(3) sum by simp
  show ?case
  proof (cases W)
    case Nil
    with adv not_stop show ?thesis
      unfolding W_def [symmetric] m_def [symmetric]
      by (subst getNextRowImpl.simps) (auto simp: Let_def)
  next
    case (Cons p W')
    from filter_upt_Cons [OF Cons [unfolded W_def]]
    have p: "p < entryCount rs" "filter (row_is_valid E rs) [Suc p..<entryCount rs] = W'"
      by simp_all
    from permuted_idx_in_range [OF p(1)]
    obtain entry_idx where entry: "permuted_idx rs p = Inr entry_idx" by blast
    with adv Cons have adv': "advanceCursorToNextEntry E rs = Inr (entry_idx, rs\<lparr>crt_row_buff_idx := p\<rparr>)"
      by simp
    show ?thesis
    proof (cases "drop_first rs \<noteq> 0 \<and> fetched_so_far rs + 1 \<le> unat (drop_first rs)")
      case True
      let ?rs2 = "rs\<lparr>crt_row_buff_idx := p + 1, fetched_so_far := fetched_so_far rs + 1\<rparr>"
      from True have m: "m = Suc (unat (drop_first ?rs2) - fetched_so_far ?rs2)"
        by (auto simp: m_def)
      have "getNextRowImpl E ?rs2 ts dd =
        (let W = filter (row_is_valid E ?rs2) [crt_row_buff_idx ?rs2..<entryCount ?rs2];
             m = unat (drop_first ?rs2) - fetched_so_far ?rs2
         in if m < length W then
              (case row_at E ?rs2 (W ! m) ts dd of
                 Inl e \<Rightarrow> Inl e
               | Inr row \<Rightarrow>
                   if row = [] then Inl CheckFailed
                   else Inr (row, ?rs2\<lparr>crt_row_buff_idx := W ! m + 1,
                                      fetched_so_far := fetched_so_far ?rs2 + m + 1\<rparr>))
            else Inr ([], ?rs2\<lparr>crt_row_buff_idx := entryCount ?rs2,
                               fetched_so_far := fetched_so_far ?rs2 + length W\<rparr>))"
        using True less.prems p(1) kpos by (intro less.hyps) auto
      moreover have "getNextRowImpl E rs ts dd = getNextRowImpl E ?rs2 ts dd"
        using not_stop adv' p(1) True
        by (subst getNextRowImpl.simps) auto
      ultimately show ?thesis
        unfolding W_def [symmetric] m_def [symmetric]
        using Cons p(2) m by (simp add: Let_def cong: if_cong sum.case_cong)
    next
      case False
      then have m0: "m = 0" by (auto simp: m_def unat_eq_zero)
      have "row_at E rs p ts dd = getRowAt_entry E rs entry_idx ts dd False []"
        using entry by (simp add: row_at_def)
      with not_stop adv' p(1) False Cons m0 show ?thesis
        unfolding W_def [symmetric] m_def [symmetric]
        by (subst getNextRowImpl.simps) (auto simp: Let_def split: sum.splits)
    qed
  qed
qed


lemma filter_upt_nth:
  "filter P [c..<n] = W \<Longrightarrow> m < length W \<Longrightarrow>
   W ! m < n \<and> P (W ! m) \<and> filter P [Suc (W ! m)..<n] = drop (Suc m) W"
proof (induction m arbitrary: c W)
  case 0
  then obtain p W' where W: "W = p # W'" by (cases W) auto
  with 0 filter_upt_Cons [of P c n p W'] show ?case by simp
next
  case (Suc m)
  then obtain p W' where W: "W = p # W'" by (cases W) auto
  with Suc.prems filter_upt_Cons [of P c n p W']
  have "filter P [Suc p..<n] = W'" "m < length W'" by simp_all
  from Suc.IH [OF this] W show ?case by simp
qed

lemma getNextRow_is_Impl:
  "\<not> just_explain rs \<Longrightarrow> storage rs \<noteq> None \<Longrightarrow>
   getNextRow E rs ts dd = getNextRowImpl E rs ts dd"
  by (auto simp: getNextRow_def getNextRowUnlocked_def)

text \<open>A cursor that has stopped stays stopped: every further call returns no row.\<close>

lemma getNextRows_stopped:
  assumes "\<not> just_explain rs" and "storage rs \<noteq> None" and "decided E rs"
      and NW: "unat (drop_first rs) + unat (keep_first rs) < 2 ^ 64"
  shows "c \<le> entryCount rs \<Longrightarrow>
         (keep_first rs \<noteq> 0 \<and> unat (drop_first rs) + unat (keep_first rs) \<le> f) \<or>
         filter (row_is_valid E rs) [c..<entryCount rs] = [] \<Longrightarrow>
         \<exists>c' f'. getNextRows E n (rs\<lparr>crt_row_buff_idx := c, fetched_so_far := f\<rparr>) ts dd
                   = Inr (replicate n [], rs\<lparr>crt_row_buff_idx := c', fetched_so_far := f'\<rparr>)"
proof (induction n arbitrary: c f)
  case 0
  show ?case by auto
next
  case (Suc n)
  let ?S = "rs\<lparr>crt_row_buff_idx := c, fetched_so_far := f\<rparr>"
  have impl: "getNextRow E ?S ts dd = getNextRowImpl E ?S ts dd"
    using assms by (simp add: getNextRow_is_Impl)
  note sum = unat_sum_no_wrap [OF NW]
  show ?case
  proof (cases "keep_first rs \<noteq> 0 \<and> unat (drop_first rs) + unat (keep_first rs) \<le> f")
    case True
    then have "getNextRowImpl E ?S ts dd = Inr ([], ?S)"
      by (subst getNextRowImpl.simps) (simp add: sum)
    moreover from Suc.IH [OF Suc.prems(1), of f] True
    obtain c' f' where "getNextRows E n ?S ts dd
        = Inr (replicate n [], rs\<lparr>crt_row_buff_idx := c', fetched_so_far := f'\<rparr>)"
      by blast
    ultimately show ?thesis using impl by (simp, blast)
  next
    case False
    with Suc.prems(2) have W: "filter (row_is_valid E rs) [c..<entryCount rs] = []" by blast
    have "getNextRowImpl E ?S ts dd
            = Inr ([], rs\<lparr>crt_row_buff_idx := entryCount rs, fetched_so_far := f\<rparr>)"
      using getNextRowImpl_call [of E ?S ts dd] assms(3) NW Suc.prems(1) False W
      by (simp add: Let_def)
    moreover from Suc.IH [of "entryCount rs" f]
    obtain c' f' where "getNextRows E n
          (rs\<lparr>crt_row_buff_idx := entryCount rs, fetched_so_far := f\<rparr>) ts dd
        = Inr (replicate n [], rs\<lparr>crt_row_buff_idx := c', fetched_so_far := f'\<rparr>)"
      by auto
    ultimately show ?thesis using impl by (simp, blast)
  qed
qed


lemma length_yielded_positions:
  "length (yielded_positions E rs) =
     (if keep_first rs = 0 then length (valid_positions E rs) - unat (drop_first rs)
      else min (unat (keep_first rs)) (length (valid_positions E rs) - unat (drop_first rs)))"
  by (simp add: yielded_positions_def min.commute)

lemma nth_yielded_positions:
  "j < length (yielded_positions E rs) \<Longrightarrow>
   yielded_positions E rs ! j = valid_positions E rs ! (unat (drop_first rs) + j)"
  by (auto simp: yielded_positions_def split: if_splits)

lemma rows_of_past_end:
  "length ps \<le> j \<Longrightarrow> map (rows_of E rs ts dd ps) [j..<j + n] = replicate n []"
  by (induction n) (simp_all add: rows_of_def replicate_append_same)

text \<open>
  While rows are left, call \<open>j\<close> returns the row of the \<open>j\<close>-th yielded position. The
  cursor records how many valid entries it has consumed.
\<close>

lemma getNextRows_live:
  assumes B: "\<not> just_explain rs" "storage rs \<noteq> None" "decided E rs"
      and R: "\<forall>p<entryCount rs. row_is_valid E rs p \<longrightarrow>
                (\<exists>row. row_at E rs p ts dd = Inr row \<and> row \<noteq> [])"
      and NW: "unat (drop_first rs) + unat (keep_first rs) < 2 ^ 64"
  shows "c \<le> entryCount rs \<Longrightarrow>
         filter (row_is_valid E rs) [c..<entryCount rs] = drop f (valid_positions E rs) \<Longrightarrow>
         (if j = 0 then f = 0 else f = unat (drop_first rs) + j) \<Longrightarrow>
         j \<le> length (yielded_positions E rs) \<Longrightarrow>
         \<exists>c' f'. getNextRows E n (rs\<lparr>crt_row_buff_idx := c, fetched_so_far := f\<rparr>) ts dd
                   = Inr (map (rows_of E rs ts dd (yielded_positions E rs)) [j..<j + n],
                          rs\<lparr>crt_row_buff_idx := c', fetched_so_far := f'\<rparr>)"
proof (induction n arbitrary: c f j)
  case 0
  show ?case by auto
next
  case (Suc n)
  let ?S = "rs\<lparr>crt_row_buff_idx := c, fetched_so_far := f\<rparr>"
  let ?V = "valid_positions E rs"
  let ?L = "yielded_positions E rs"
  let ?N = "entryCount rs"
  let ?d = "unat (drop_first rs)"
  let ?k = "unat (keep_first rs)"
  note sum = unat_sum_no_wrap [OF NW]
  have kz: "keep_first rs = 0 \<longleftrightarrow> ?k = 0" by (simp add: unat_eq_zero)
  let ?W = "drop f ?V"
  let ?m = "?d - f"
  have impl: "getNextRow E ?S ts dd = getNextRowImpl E ?S ts dd"
    using B by (simp add: getNextRow_is_Impl)
  have upt: "[j..<j + Suc n] = j # [Suc j..<Suc j + n]"
    by (simp add: upt_conv_Cons)
  note lenL = length_yielded_positions [of E rs]
  show ?case
  proof (cases "j < length ?L")
    case True
    have not_stop: "\<not> (?k \<noteq> 0 \<and> ?d + ?k \<le> f)"
      using True Suc.prems(3) lenL kz by (auto split: if_splits)
    have fm: "f + ?m + 1 = ?d + (j + 1)"
      using Suc.prems(3) by (auto split: if_splits)
    have dj: "?d + j < length ?V"
      using True lenL by (auto split: if_splits)
    have m_lt: "?m < length ?W"
      using dj Suc.prems(3) by (auto split: if_splits)
    have Wm: "?W ! ?m = ?L ! j"
      using dj Suc.prems(3) nth_yielded_positions [OF True]
      by (auto split: if_splits)
    from filter_upt_nth [OF Suc.prems(2) m_lt]
    have nxt: "?W ! ?m < ?N" "row_is_valid E rs (?W ! ?m)"
      "filter (row_is_valid E rs) [Suc (?W ! ?m)..<?N] = drop (f + ?m + 1) ?V"
      by (simp_all add: add.commute)
    from R nxt(1,2) obtain row where row: "row_at E rs (?W ! ?m) ts dd = Inr row" "row \<noteq> []"
      by blast
    have call: "getNextRowImpl E ?S ts dd
                  = Inr (row, rs\<lparr>crt_row_buff_idx := ?W ! ?m + 1,
                                  fetched_so_far := f + ?m + 1\<rparr>)"
      using getNextRowImpl_call [of E ?S ts dd] B(3) NW Suc.prems(1,2) not_stop m_lt row kz
      by (simp add: Let_def)
    have first: "rows_of E rs ts dd ?L j = row"
      using True Wm row by (simp add: rows_of_def)
    have "\<exists>c' f'. getNextRows E n
             (rs\<lparr>crt_row_buff_idx := ?W ! ?m + 1, fetched_so_far := f + ?m + 1\<rparr>) ts dd
           = Inr (map (rows_of E rs ts dd ?L) [j + 1..<j + 1 + n],
                  rs\<lparr>crt_row_buff_idx := c', fetched_so_far := f'\<rparr>)"
      using nxt(1,3) fm True by (intro Suc.IH) auto
    then obtain c' f' where rest: "getNextRows E n
             (rs\<lparr>crt_row_buff_idx := ?W ! ?m + 1, fetched_so_far := f + ?m + 1\<rparr>) ts dd
           = Inr (map (rows_of E rs ts dd ?L) [j + 1..<j + 1 + n],
                  rs\<lparr>crt_row_buff_idx := c', fetched_so_far := f'\<rparr>)"
      by blast
    show ?thesis
      using impl call rest first upt by (simp, blast)
  next
    case False
    with Suc.prems(4) have jL: "j = length ?L" by simp
    have all_empty: "map (rows_of E rs ts dd ?L) [j..<j + Suc n] = replicate (Suc n) []"
      using jL by (intro rows_of_past_end) simp
    have "\<exists>c2 f2. getNextRowImpl E ?S ts dd
                    = Inr ([], rs\<lparr>crt_row_buff_idx := c2, fetched_so_far := f2\<rparr>)
                  \<and> c2 \<le> ?N
                  \<and> ((?k \<noteq> 0 \<and> ?d + ?k \<le> f2) \<or>
                     filter (row_is_valid E rs) [c2..<?N] = [])"
    proof (cases "?k \<noteq> 0 \<and> ?d + ?k \<le> f")
      case True
      then have "getNextRowImpl E ?S ts dd = Inr ([], ?S)"
        by (subst getNextRowImpl.simps) (simp add: sum kz)
      with True Suc.prems(1) show ?thesis by blast
    next
      case not_stop: False
      have "\<not> ?m < length ?W"
        using jL lenL Suc.prems(3) not_stop kz by (auto split: if_splits)
      then have "getNextRowImpl E ?S ts dd
                   = Inr ([], rs\<lparr>crt_row_buff_idx := ?N,
                                  fetched_so_far := f + length ?W\<rparr>)"
        using getNextRowImpl_call [of E ?S ts dd] B(3) NW Suc.prems(1,2) not_stop kz
        by (simp add: Let_def)
      then show ?thesis by (intro exI [of _ ?N] exI [of _ "f + length ?W"]) simp
    qed
    then obtain c2 f2 where stop: "getNextRowImpl E ?S ts dd
                    = Inr ([], rs\<lparr>crt_row_buff_idx := c2, fetched_so_far := f2\<rparr>)"
        "c2 \<le> ?N"
        "(?k \<noteq> 0 \<and> ?d + ?k \<le> f2) \<or> filter (row_is_valid E rs) [c2..<?N] = []"
      by blast
    have "(keep_first rs \<noteq> 0 \<and> ?d + ?k \<le> f2) \<or>
          filter (row_is_valid E rs) [c2..<?N] = []"
      using stop(3) kz by simp
    from getNextRows_stopped [OF B NW stop(2) this, of n ts dd]
    obtain c' f' where rest: "getNextRows E n
          (rs\<lparr>crt_row_buff_idx := c2, fetched_so_far := f2\<rparr>) ts dd
        = Inr (replicate n [], rs\<lparr>crt_row_buff_idx := c', fetched_so_far := f'\<rparr>)"
      by blast
    show ?thesis
      unfolding all_empty using impl stop(1) rest by (simp, blast)
  qed
qed


lemma iterable_decided: "iterable E rs ts dd \<Longrightarrow> decided E rs"
  by (simp add: iterable_def decided_def)

lemma fresh_cursor:
  "crt_row_buff_idx rs = 0 \<Longrightarrow> fetched_so_far rs = 0 \<Longrightarrow>
   rs\<lparr>crt_row_buff_idx := 0, fetched_so_far := 0\<rparr> = rs"
  by (cases rs) simp

lemma getNextRows_fresh:
  assumes "iterable E rs ts dd" and "crt_row_buff_idx rs = 0" and "fetched_so_far rs = 0"
      and NW: "unat (drop_first rs) + unat (keep_first rs) < 2 ^ 64"
  shows "\<exists>rs'. getNextRows E n rs ts dd
           = Inr (map (rows_of E rs ts dd (yielded_positions E rs)) [0..<n], rs')"
proof -
  have B: "\<not> just_explain rs" "storage rs \<noteq> None" "decided E rs"
    using assms(1) by (simp_all add: iterable_def decided_def)
  have R: "\<forall>p<entryCount rs. row_is_valid E rs p \<longrightarrow>
                (\<exists>row. row_at E rs p ts dd = Inr row \<and> row \<noteq> [])"
    using assms(1) by (simp add: iterable_def)
  have "\<exists>c' f'. getNextRows E n (rs\<lparr>crt_row_buff_idx := 0, fetched_so_far := 0\<rparr>) ts dd
          = Inr (map (rows_of E rs ts dd (yielded_positions E rs)) [0..<0 + n],
                 rs\<lparr>crt_row_buff_idx := c', fetched_so_far := f'\<rparr>)"
    by (rule getNextRows_live [OF B R NW]) (simp_all add: valid_positions_def)
  then show ?thesis
    using fresh_cursor [OF assms(2,3)] by auto
qed

text \<open>
  When the sum of OFFSET and LIMIT wraps to zero (OFFSET 1 with LIMIT \<open>2 ^ 64 - 1\<close>, say),
  the test \<^verbatim>\<open>fetched_so_far_ >= drop_first_ + keep_first_\<close> holds at once and the first
  call returns no row, whatever the entries are. The property below is about the sums that
  do not wrap.
\<close>

lemma getNextRowImpl_sum_wraps:
  "keep_first rs \<noteq> 0 \<Longrightarrow> drop_first rs + keep_first rs = 0 \<Longrightarrow>
   getNextRowImpl E rs ts dd = Inr ([], rs)"
  by (subst getNextRowImpl.simps) simp



text \<open>More definitions to unfold on an example result set.\<close>

lemmas example_rs_defs =
  isRowAtEmpty_def row_at_def entryCount_def permuted_idx_def findStorage_def
  getStorageIndex_def getRowAt_entry_def example_ResultSet_def



subsection \<open>Random access against sequential iteration\<close>

lemma filter_upt_packed:
  "\<forall>p q. p \<le> q \<and> q < n \<and> P q \<longrightarrow> P p \<Longrightarrow>
   \<exists>v. filter P [0..<n] = [0..<v] \<and> v \<le> n"
proof (induction n)
  case 0
  show ?case by simp
next
  case (Suc n)
  have "\<forall>p q. p \<le> q \<and> q < n \<and> P q \<longrightarrow> P p"
  proof (intro allI impI)
    fix p q
    assume "p \<le> q \<and> q < n \<and> P q"
    then have "p \<le> q \<and> q < Suc n \<and> P q" by simp
    with Suc.prems show "P p" by blast
  qed
  from Suc.IH [OF this] obtain v where v: "filter P [0..<n] = [0..<v]" "v \<le> n" by blast
  show ?case
  proof (cases "P n")
    case True
    have "\<forall>p\<in>set [0..<n]. P p"
    proof
      fix p
      assume "p \<in> set [0..<n]"
      then have "p \<le> n \<and> n < Suc n \<and> P n" using True by simp
      with Suc.prems show "P p" by blast
    qed
    then have "filter P [0..<n] = [0..<n]" by (rule filter_True)
    with True have "filter P [0..<Suc n] = [0..<Suc n]" by simp
    then show ?thesis by blast
  next
    case False
    with v have "filter P [0..<Suc n] = [0..<v]" "v \<le> Suc n" by simp_all
    then show ?thesis by blast
  qed
qed

lemma valid_positions_cursor [simp]:
  "valid_positions E (rs\<lparr>crt_row_buff_idx := c\<rparr>) = valid_positions E rs"
  "valid_positions E (rs\<lparr>fetched_so_far := f\<rparr>) = valid_positions E rs"
  by (simp_all add: valid_positions_def)

lemma rowCount_valid:
  assumes "decided E rs"
  shows "rowCount E rs =
           Inr (get_truncated_row_count (length (valid_positions E rs))
                  (unat (keep_first rs)) (unat (drop_first rs)))"
proof -
  have "\<forall>i\<in>set [0..<entryCount rs]. isRowAtEmpty E rs i = Inr (\<not> row_is_valid E rs i)"
    using assms by (simp add: decided_valid)
  from count_valid_entries_filter [OF this]
  show ?thesis by (simp add: rowCount_def valid_positions_def)
qed

text \<open>
  C3 (amended). For every result set that can be iterated, with no permutation, no OFFSET
  (\<open>drop_first = 0\<close>) and no empty entry before a valid one, and with \<^verbatim>\<open>getNextRow\<close>
  called with \<open>translate_strings = true\<close> and \<open>decimal_to_double = false\<close> (the flags
  \<^verbatim>\<open>getRowAt(i)\<close> uses): the sequence \<^verbatim>\<open>getRowAt(0)\<close>, ..., \<^verbatim>\<open>getRowAt(rowCount() - 1)\<close>
  equals, element by element and in the same order, the rows returned by repeated
  \<^verbatim>\<open>getNextRow()\<close> calls from a fresh cursor, and the call after the last row
  returns the empty row.
\<close>

theorem getRowAt_sequence_is_getNextRow_sequence:
  assumes it: "iterable E rs True False"
      and fresh: "crt_row_buff_idx rs = 0" "fetched_so_far rs = 0"
      and perm: "permutation rs = []"
      and offs: "drop_first rs = 0"
      and packed: "\<forall>p q. p \<le> q \<and> q < entryCount rs \<and> row_is_valid E rs q
                     \<longrightarrow> row_is_valid E rs p"
  shows "\<exists>n rows rs'.
           rowCount E rs = Inr n \<and> length rows = n \<and>
           getNextRows E (Suc n) rs True False = Inr (rows @ [[]], rs') \<and>
           (\<forall>i<n. getRowAt E rs i = Inr (rows ! i) \<and> rows ! i \<noteq> [])"
proof -
  let ?V = "valid_positions E rs"
  let ?L = "yielded_positions E rs"
  let ?n = "length ?L"
  let ?rows = "map (rows_of E rs True False ?L) [0..<?n]"
  have dec: "decided E rs" using it by (rule iterable_decided)
  from filter_upt_packed [OF packed]
  obtain v where V: "?V = [0..<v]" and lenV: "v \<le> entryCount rs"
    unfolding valid_positions_def by blast
  have v: "length ?V = v" by (simp add: V)
  have nw: "unat (drop_first rs) + unat (keep_first rs) < 2 ^ 64"
    using offs unsigned_less [of "keep_first rs", where 'a = nat] by simp
  have n: "?n = get_truncated_row_count (length ?V)
                  (unat (keep_first rs)) (unat (drop_first rs))"
    using offs by (auto simp: length_yielded_positions get_truncated_row_count_def unat_eq_zero)
  have count: "rowCount E rs = Inr ?n"
    using rowCount_valid [OF dec] n by simp
  from getNextRows_fresh [OF it fresh nw, of "Suc ?n"]
  obtain rs' where calls: "getNextRows E (Suc ?n) rs True False
      = Inr (map (rows_of E rs True False ?L) [0..<Suc ?n], rs')"
    by blast
  have last: "rows_of E rs True False ?L ?n = []" by (simp add: rows_of_def)
  have calls': "getNextRows E (Suc ?n) rs True False = Inr (?rows @ [[]], rs')"
    using calls last by simp
  have each: "getRowAt E rs i = Inr (?rows ! i) \<and> ?rows ! i \<noteq> []" if "i < ?n" for i
  proof -
    from that offs have iV: "i < v"
      by (auto simp: length_yielded_positions v split: if_splits)
    have "?L ! i = ?V ! i"
      using nth_yielded_positions [OF that] offs by simp
    with iV have Li: "?L ! i = i" by (simp add: V)
    from iV lenV have iN: "i < entryCount rs" by simp
    from iV have "i \<in> set ?V" by (simp add: V)
    then have valid: "row_is_valid E rs i" by (simp add: valid_positions_def)
    with it iN obtain row where row: "row_at E rs i True False = Inr row" "row \<noteq> []"
      by (auto simp: iterable_def)
    have "getRowAt E rs i = row_at E rs i True False"
      using iN by (simp add: getRowAt_def row_at_def)
    moreover have "?rows ! i = row"
      using that Li row by (simp add: rows_of_def)
    ultimately show ?thesis using row by simp
  qed
  show ?thesis
    using count calls' each by (intro exI [of _ ?n] exI [of _ ?rows] exI [of _ rs']) simp
qed



theorem getRowAt_sequence_is_getNextRow_sequence_witness:
  "rowCount (example_Env 1)
     (example_ResultSet Projection [(0, 10), (1, 11), (2 ^ 63 - 1, 0)] []) = Inr 2
   \<and> map_sum id fst
       (getNextRows (example_Env 1) 3
          (example_ResultSet Projection [(0, 10), (1, 11), (2 ^ 63 - 1, 0)] []) True False)
     = Inr [[Decoded 10], [Decoded 11], []]
   \<and> getRowAt (example_Env 1)
       (example_ResultSet Projection [(0, 10), (1, 11), (2 ^ 63 - 1, 0)] []) 0
     = Inr [Decoded 10]
   \<and> getRowAt (example_Env 1)
       (example_ResultSet Projection [(0, 10), (1, 11), (2 ^ 63 - 1, 0)] []) 1
     = Inr [Decoded 11]"
proof -
  let ?rs = "example_ResultSet Projection [(0, 10), (1, 11), (2 ^ 63 - 1, 0)] []"
  let ?E = "example_Env 1 :: int Env"
  have n: "entryCount ?rs = 3"
    by (simp add: entryCount_def example_ResultSet_def example_qmd_def getEntryCount_def)
  have e0: "isRowAtEmpty ?E ?rs 0 = Inr False"
    by (simp add: example_rs_defs example_defs)
  have e1: "isRowAtEmpty ?E ?rs 1 = Inr False"
    by (simp add: example_rs_defs example_defs)
  have e2: "isRowAtEmpty ?E ?rs 2 = Inr True"
    by (simp add: example_rs_defs example_defs)
  have r0: "row_at ?E ?rs 0 True False = Inr [Decoded 10]"
    by (simp add: example_rs_defs example_defs)
  have r1: "row_at ?E ?rs 1 True False = Inr [Decoded 11]"
    by (simp add: example_rs_defs example_defs)
  have cases3: "p = 0 \<or> p = 1 \<or> p = 2" if "p < 3" for p :: nat
    using that by linarith
  have valid: "row_is_valid ?E ?rs p \<longleftrightarrow> p < 2" if "p < 3" for p
    using cases3 [OF that] e0 e1 e2 by (auto simp: row_is_valid_def)
  have it: "iterable ?E ?rs True False"
    unfolding iterable_def n
  proof (intro conjI allI impI)
    show "\<not> just_explain ?rs" "storage ?rs \<noteq> None" by (simp_all add: example_ResultSet_def)
  next
    fix p :: nat assume "p < 3"
    from cases3 [OF this] show "\<exists>b. isRowAtEmpty ?E ?rs p = Inr b" using e0 e1 e2 by auto
  next
    fix p :: nat assume "p < 3" "row_is_valid ?E ?rs p"
    with valid [of p] have "p = 0 \<or> p = 1" by auto
    then show "\<exists>row. row_at ?E ?rs p True False = Inr row \<and> row \<noteq> []"
      using r0 r1 by auto
  qed
  have fresh: "crt_row_buff_idx ?rs = 0" "fetched_so_far ?rs = 0"
    and perm: "permutation ?rs = []" and offs: "drop_first ?rs = 0"
    and lim: "keep_first ?rs = 0"
    by (simp_all add: example_ResultSet_def)
  have packed: "\<forall>p q. p \<le> q \<and> q < entryCount ?rs \<and> row_is_valid ?E ?rs q
                     \<longrightarrow> row_is_valid ?E ?rs p"
    unfolding n
  proof (intro allI impI)
    fix p q :: nat
    assume a: "p \<le> q \<and> q < 3 \<and> row_is_valid ?E ?rs q"
    then have "q < 2" using valid [of q] by simp
    with a have "p < 2" by simp
    then show "row_is_valid ?E ?rs p" using valid [of p] by simp
  qed
  from getRowAt_sequence_is_getNextRow_sequence [OF it fresh perm offs packed]
  obtain k rws rs' where r: "rowCount ?E ?rs = Inr k" "length rws = k"
    "getNextRows ?E (Suc k) ?rs True False = Inr (rws @ [[]], rs')"
    "\<forall>i<k. getRowAt ?E ?rs i = Inr (rws ! i) \<and> rws ! i \<noteq> []"
    by blast
  have v0: "row_is_valid ?E ?rs 0" using e0 by (simp add: row_is_valid_def)
  have v1: "row_is_valid ?E ?rs 1" using e1 by (simp add: row_is_valid_def)
  have v2: "\<not> row_is_valid ?E ?rs 2" using e2 by (simp add: row_is_valid_def)
  have "[0..<3] = [0, 1, 2::nat]" by (simp add: upt_rec)
  then have "valid_positions ?E ?rs = filter (row_is_valid ?E ?rs) [0, 1, 2]"
    unfolding valid_positions_def n by simp
  with v0 v1 v2 have V: "valid_positions ?E ?rs = [0, 1]" by simp
  have count: "rowCount ?E ?rs = Inr 2"
    using rowCount_valid [OF iterable_decided [OF it]] V lim offs
    by (simp add: get_truncated_row_count_def)
  with r(1) have k: "k = 2" by simp
  have g0: "getRowAt ?E ?rs 0 = Inr [Decoded 10]"
    using r0 n perm by (simp add: getRowAt_def row_at_def)
  have g1: "getRowAt ?E ?rs 1 = Inr [Decoded 11]"
    using r1 n perm by (simp add: getRowAt_def row_at_def)
  from r(4) k g0 have w0: "rws ! 0 = [Decoded 10]" by auto
  from r(4) k g1 have w1: "rws ! 1 = [Decoded 11]" by auto
  have "rws = [[Decoded 10], [Decoded 11]]"
  proof (rule nth_equalityI)
    show "length rws = length [[Decoded 10], [Decoded 11::int TargetValue]]"
      using r(2) k by simp
  next
    fix i assume "i < length rws"
    with r(2) k have "i = 0 \<or> i = 1" by auto
    then show "rws ! i = [[Decoded 10], [Decoded 11]] ! i" using w0 w1 by auto
  qed
  with r(3) k have "getNextRows ?E 3 ?rs True False
                      = Inr ([[Decoded 10], [Decoded 11], []], rs')"
    by (simp add: numeral_3_eq_3)
  with count g0 g1 show ?thesis by simp
qed


text \<open>
  C3 as stated covers every result set with no permutation. \<^verbatim>\<open>getRowAt(i)\<close> addresses
  entry \<open>i\<close>, \<^verbatim>\<open>getNextRow()\<close> skips empty entries: in a hashed buffer whose entry 0 is
  empty and whose entry 1 holds the row (70), the row count is 1, \<^verbatim>\<open>getRowAt(0)\<close> is the
  empty row and the first \<^verbatim>\<open>getNextRow()\<close> returns the row (70).
\<close>

theorem getRowAt_sparse_counterexample:
  "permutation (example_ResultSet GroupByBaselineHash [(2 ^ 63 - 1, 0), (7, 70)] []) = []
   \<and> rowCount (example_Env 1)
       (example_ResultSet GroupByBaselineHash [(2 ^ 63 - 1, 0), (7, 70)] []) = Inr 1
   \<and> getRowAt (example_Env 1)
       (example_ResultSet GroupByBaselineHash [(2 ^ 63 - 1, 0), (7, 70)] []) 0 = Inr []
   \<and> map_sum id fst
       (getNextRows (example_Env 1) 1
          (example_ResultSet GroupByBaselineHash [(2 ^ 63 - 1, 0), (7, 70)] []) True False)
     = Inr [[Decoded 70]]"
proof -
  let ?rs = "example_ResultSet GroupByBaselineHash [(2 ^ 63 - 1, 0), (7, 70)] []"
  let ?E = "example_Env 1 :: int Env"
  have n: "entryCount ?rs = 2"
    by (simp add: entryCount_def example_ResultSet_def example_qmd_def getEntryCount_def)
  have e0: "isRowAtEmpty ?E ?rs 0 = Inr True"
    by (simp add: example_rs_defs example_defs)
  have e1: "isRowAtEmpty ?E ?rs 1 = Inr False"
    by (simp add: example_rs_defs example_defs)
  have r1: "row_at ?E ?rs 1 True False = Inr [Decoded 70]"
    by (simp add: example_rs_defs example_defs)
  have emp: "isRowAtEmpty ?E ?rs p = Inr (p = 0)" if "p < 2" for p
  proof -
    from that have "p = 0 \<or> p = 1" by linarith
    then show ?thesis using e0 e1 by auto
  qed
  have v0: "\<not> row_is_valid ?E ?rs 0" using e0 by (simp add: row_is_valid_def)
  have v1: "row_is_valid ?E ?rs 1" using e1 by (simp add: row_is_valid_def)
  have "[0..<2] = [0, 1::nat]" by (simp add: upt_rec)
  then have "valid_positions ?E ?rs = filter (row_is_valid ?E ?rs) [0, 1]"
    unfolding valid_positions_def n by simp
  with v0 v1 have V: "valid_positions ?E ?rs = [1]" by simp
  have it: "iterable ?E ?rs True False"
    unfolding iterable_def n
  proof (intro conjI allI impI)
    show "\<not> just_explain ?rs" "storage ?rs \<noteq> None" by (simp_all add: example_ResultSet_def)
  next
    fix p :: nat assume "p < 2"
    then show "\<exists>b. isRowAtEmpty ?E ?rs p = Inr b" using emp by blast
  next
    fix p :: nat assume "p < 2" "row_is_valid ?E ?rs p"
    then have "p = 1" using emp [of p] by (simp add: row_is_valid_def)
    then show "\<exists>row. row_at ?E ?rs p True False = Inr row \<and> row \<noteq> []" using r1 by simp
  qed
  have fresh: "crt_row_buff_idx ?rs = 0" "fetched_so_far ?rs = 0"
    and lim: "drop_first ?rs = 0" "keep_first ?rs = 0" "permutation ?rs = []"
    by (simp_all add: example_ResultSet_def)
  have L: "yielded_positions ?E ?rs = [1]"
    using V lim by (simp add: yielded_positions_def)
  have nw: "unat (drop_first ?rs) + unat (keep_first ?rs) < 2 ^ 64"
    using lim by simp
  from getNextRows_fresh [OF it fresh nw, of 1]
  obtain rs' where "getNextRows ?E 1 ?rs True False
      = Inr (map (rows_of ?E ?rs True False [1]) [0..<1], rs')"
    unfolding L by blast
  then have calls: "map_sum id fst (getNextRows ?E 1 ?rs True False) = Inr [[Decoded 70]]"
    using r1 by (simp add: rows_of_def)
  have count: "rowCount ?E ?rs = Inr 1"
    using rowCount_valid [OF iterable_decided [OF it]] V lim
    by (simp add: get_truncated_row_count_def)
  have g0: "getRowAt ?E ?rs 0 = Inr []"
    by (simp add: getRowAt_def example_rs_defs example_defs)
  show ?thesis using lim(3) count g0 calls by simp
qed


subsection \<open>The entry count and the storage lookup\<close>


text \<open>An index below the number of entries of all storages resolves to one of them.\<close>

lemma getStorageIndex_loop_total:
  "f < sum_list (map (\<lambda>s. getEntryCount (query_mem_desc s)) app) \<Longrightarrow>
   \<exists>k l. getStorageIndex_loop app i0 f = Inr (i0 + k + 1, l) \<and> k < length app \<and>
         l < getEntryCount (query_mem_desc (app ! k))"
proof (induction app arbitrary: i0 f)
  case Nil
  then show ?case by simp
next
  case (Cons s rest)
  show ?case
  proof (cases "f < getEntryCount (query_mem_desc s)")
    case True
    then have "getStorageIndex_loop (s # rest) i0 f = Inr (i0 + 0 + 1, f)" by simp
    with True show ?thesis by (intro exI [of _ 0] exI [of _ f]) simp
  next
    case False
    with Cons.prems
    have "f - getEntryCount (query_mem_desc s)
            < sum_list (map (\<lambda>s. getEntryCount (query_mem_desc s)) rest)"
      by simp
    from Cons.IH [OF this, of "i0 + 1"]
    obtain k l where kl: "getStorageIndex_loop rest (i0 + 1) (f - getEntryCount (query_mem_desc s))
        = Inr (i0 + 1 + k + 1, l)" "k < length rest"
        "l < getEntryCount (query_mem_desc (rest ! k))"
      by blast
    with False show ?thesis by (intro exI [of _ "Suc k"] exI [of _ l]) simp
  qed
qed

lemma findStorage_total:
  assumes "storage rs \<noteq> None" and "e < total_entries rs"
  shows "\<exists>slr. findStorage rs e = Inr slr \<and>
               fixedup_entry_idx slr < getEntryCount (query_mem_desc (storage_ptr slr))"
proof -
  from assms(1) obtain s0 where s0: "storage rs = Some s0" by auto
  show ?thesis
  proof (cases "e < getEntryCount (query_mem_desc s0)")
    case True
    with s0 show ?thesis by (simp add: findStorage_def getStorageIndex_def)
  next
    case False
    with assms(2) s0
    have "e - getEntryCount (query_mem_desc s0)
            < sum_list (map (\<lambda>s. getEntryCount (query_mem_desc s)) (appended_storage rs))"
      by (simp add: total_entries_def entries_before_def)
    from getStorageIndex_loop_total [OF this, of 0]
    obtain k l where "getStorageIndex_loop (appended_storage rs) 0
                        (e - getEntryCount (query_mem_desc s0)) = Inr (k + 1, l)"
      "k < length (appended_storage rs)"
      "l < getEntryCount (query_mem_desc (appended_storage rs ! k))"
      by auto
    with False s0 show ?thesis by (simp add: findStorage_def getStorageIndex_def)
  qed
qed

text \<open>\<^verbatim>\<open>getNextRow\<close> changes nothing but the cursor and the number of fetched rows.\<close>

lemma getNextRowImpl_frame:
  "getNextRowImpl E rs ts dd = Inr (row, rs') \<Longrightarrow>
   \<exists>c f. rs' = rs\<lparr>crt_row_buff_idx := c, fetched_so_far := f\<rparr>"
proof (induction E rs ts dd arbitrary: row rs' rule: getNextRowImpl.induct)
  case (1 E rs ts dd)
  have self: "rs = rs\<lparr>crt_row_buff_idx := crt_row_buff_idx rs, fetched_so_far := fetched_so_far rs\<rparr>"
    by simp
  show ?case
  proof (cases "keep_first rs \<noteq> 0 \<and>
                unat (drop_first rs + keep_first rs) \<le> fetched_so_far rs")
    case True
    with "1.prems" have "rs' = rs" by (subst (asm) getNextRowImpl.simps) auto
    with self show ?thesis by metis
  next
    case False
    show ?thesis
    proof (cases "advanceCursorToNextEntry E rs")
      case (Inl e)
      with False "1.prems" show ?thesis by (subst (asm) getNextRowImpl.simps) auto
    next
      case (Inr x)
      obtain entry_idx rs1 where x: "x = (entry_idx, rs1)" by (cases x)
      from Inr x have "\<exists>c. rs1 = rs\<lparr>crt_row_buff_idx := c\<rparr>"
        unfolding advanceCursorToNextEntry_def
        by (cases "advanceCursorToNextEntry_loop E rs (crt_row_buff_idx rs)")
           (auto split: if_splits)
      then obtain c where rs1: "rs1 = rs\<lparr>crt_row_buff_idx := c\<rparr>" ..
      let ?rs2 = "rs1\<lparr>crt_row_buff_idx := crt_row_buff_idx rs1 + 1,
                    fetched_so_far := fetched_so_far rs1 + 1\<rparr>"
      have rs2: "?rs2 = rs\<lparr>crt_row_buff_idx := c + 1, fetched_so_far := fetched_so_far rs + 1\<rparr>"
        by (simp add: rs1)
      have rs1': "rs1 = rs\<lparr>crt_row_buff_idx := c, fetched_so_far := fetched_so_far rs\<rparr>"
        by (simp add: rs1)
      show ?thesis
      proof (cases "crt_row_buff_idx rs1 \<ge> entryCount rs1")
        case True
        with False Inr x "1.prems" have "rs' = rs1"
          by (subst (asm) getNextRowImpl.simps) (auto split: if_splits)
        with rs1' show ?thesis by metis
      next
        case notend: False
        show ?thesis
        proof (cases "drop_first rs1 \<noteq> 0 \<and> fetched_so_far rs1 + 1 \<le> unat (drop_first rs1)")
          case True
          from False Inr x notend True "1.prems"
          have "getNextRowImpl E ?rs2 ts dd = Inr (row, rs')"
            by (subst (asm) getNextRowImpl.simps) auto
          from "1.IH" [OF False Inr x [symmetric] notend True this]
          obtain c' f' where "rs' = ?rs2\<lparr>crt_row_buff_idx := c', fetched_so_far := f'\<rparr>"
            by blast
          then have "rs' = rs\<lparr>crt_row_buff_idx := c', fetched_so_far := f'\<rparr>"
            by (simp add: rs1)
          then show ?thesis by blast
        next
          case nodrop: False
          from False Inr x notend nodrop "1.prems" have "rs' = ?rs2"
            by (subst (asm) getNextRowImpl.simps) (auto split: sum.splits if_splits)
          with rs2 show ?thesis by metis
        qed
      qed
    qed
  qed
qed

lemma getNextRow_frame:
  "getNextRow E rs ts dd = Inr (row, rs') \<Longrightarrow>
   \<exists>c f. rs' = rs\<lparr>crt_row_buff_idx := c, fetched_so_far := f\<rparr>"
proof -
  assume a: "getNextRow E rs ts dd = Inr (row, rs')"
  have self: "rs = rs\<lparr>crt_row_buff_idx := crt_row_buff_idx rs, fetched_so_far := fetched_so_far rs\<rparr>"
    by simp
  have one: "rs\<lparr>fetched_so_far := 1\<rparr>
               = rs\<lparr>crt_row_buff_idx := crt_row_buff_idx rs, fetched_so_far := 1\<rparr>"
    by simp
  consider "rs' = rs" | "rs' = rs\<lparr>fetched_so_far := 1\<rparr>"
    | "getNextRowImpl E rs ts dd = Inr (row, rs')"
    using a by (auto simp: getNextRow_def getNextRowUnlocked_def split: if_splits)
  then show ?thesis
  proof cases
    case 1 with self show ?thesis by metis
  next
    case 2 with one show ?thesis by metis
  next
    case 3 then show ?thesis by (rule getNextRowImpl_frame)
  qed
qed

lemma lookup_invariant_cursor [simp]:
  "lookup_invariant (rs\<lparr>crt_row_buff_idx := c\<rparr>) = lookup_invariant rs"
  "lookup_invariant (rs\<lparr>fetched_so_far := f\<rparr>) = lookup_invariant rs"
  by (simp_all add: lookup_invariant_def total_entries_def entries_before_def)


lemma lookup_invariant_clearPermutation:
  "lookup_invariant rs \<Longrightarrow> lookup_invariant (clearPermutation rs)"
  by (simp add: lookup_invariant_def total_entries_def entries_before_def clearPermutation_def)

lemma lookup_invariant_initStatus:
  "lookup_invariant rs \<Longrightarrow> lookup_invariant (initStatus rs)"
  by (simp add: lookup_invariant_def total_entries_def entries_before_def clearPermutation_def
        initStatus_def)

lemma lookup_invariant_updateStorageEntryCount:
  assumes "updateStorageEntryCount rs n = Inr rs'" and "permutation rs = []"
  shows "lookup_invariant rs'"
proof -
  from assms(1) obtain s0 where s0: "storage rs = Some s0"
    and rs': "rs' = rs\<lparr>rs_query_mem_desc := setEntryCount (rs_query_mem_desc rs) n,
                         storage := Some (updateEntryCount s0 n)\<rparr>"
    by (auto simp: updateStorageEntryCount_def Let_def split: if_splits option.splits)
  with assms(2) show ?thesis
    by (simp add: lookup_invariant_def total_entries_def entries_before_def
          updateEntryCount_def setEntryCount_def getEntryCount_def)
qed

text \<open>
  C6 (amended). For every result set, \<^verbatim>\<open>entryCount()\<close> equals the permutation's size
  when a permutation is present and the layout descriptor's entry count when the
  permutation is empty. When the primary storage is allocated, the descriptor's entry
  count does not exceed the number of entries the storages hold and every entry index of
  the permutation is below that number, every logical index in \<open>[0, entryCount())\<close>
  resolves, through the permutation, to a storage and a local entry index inside that
  storage. This condition is kept by \<^verbatim>\<open>clearPermutation\<close>, \<^verbatim>\<open>initStatus\<close> and
  \<^verbatim>\<open>getNextRow\<close>, and it holds after \<^verbatim>\<open>updateStorageEntryCount\<close> on a result set with
  no permutation.
\<close>

theorem entryCount_and_storage_lookup:
  "entryCount rs = (if permutation rs = [] then getEntryCount (rs_query_mem_desc rs)
                    else length (permutation rs))
   \<and> (lookup_invariant rs \<longrightarrow>
        (\<forall>i<entryCount rs. \<exists>entry_idx slr.
            permuted_idx rs i = Inr entry_idx \<and> findStorage rs entry_idx = Inr slr \<and>
            fixedup_entry_idx slr < getEntryCount (query_mem_desc (storage_ptr slr))))
   \<and> (lookup_invariant rs \<longrightarrow>
        lookup_invariant (clearPermutation rs) \<and> lookup_invariant (initStatus rs))
   \<and> (\<forall>row rs'. lookup_invariant rs \<and> getNextRow E rs ts dd = Inr (row, rs')
        \<longrightarrow> lookup_invariant rs')
   \<and> (\<forall>rs'. permutation rs = [] \<and> updateStorageEntryCount rs n = Inr rs'
        \<longrightarrow> lookup_invariant rs')"
proof (intro conjI allI impI)
  show "entryCount rs = (if permutation rs = [] then getEntryCount (rs_query_mem_desc rs)
                         else length (permutation rs))"
    by (simp add: entryCount_def)
next
  fix i
  assume inv: "lookup_invariant rs" and i: "i < entryCount rs"
  have "\<exists>entry_idx. permuted_idx rs i = Inr entry_idx \<and> entry_idx < total_entries rs"
  proof (cases "permutation rs = []")
    case True
    with inv i show ?thesis
      by (simp add: permuted_idx_def entryCount_def lookup_invariant_def)
  next
    case False
    with i have "i < length (permutation rs)" by (simp add: entryCount_def)
    moreover from inv have "\<forall>e\<in>set (permutation rs). e < total_entries rs"
      by (simp add: lookup_invariant_def list_all_iff)
    ultimately show ?thesis using False by (simp add: permuted_idx_def)
  qed
  then obtain entry_idx where e: "permuted_idx rs i = Inr entry_idx"
    "entry_idx < total_entries rs" by blast
  from inv have "storage rs \<noteq> None" by (simp add: lookup_invariant_def)
  from findStorage_total [OF this e(2)] e(1)
  show "\<exists>entry_idx slr.
            permuted_idx rs i = Inr entry_idx \<and> findStorage rs entry_idx = Inr slr \<and>
            fixedup_entry_idx slr < getEntryCount (query_mem_desc (storage_ptr slr))"
    by blast
next
  assume "lookup_invariant rs"
  then show "lookup_invariant (clearPermutation rs)" by (rule lookup_invariant_clearPermutation)
next
  assume "lookup_invariant rs"
  then show "lookup_invariant (initStatus rs)" by (rule lookup_invariant_initStatus)
next
  fix row rs'
  assume a: "lookup_invariant rs \<and> getNextRow E rs ts dd = Inr (row, rs')"
  then obtain c f where "rs' = rs\<lparr>crt_row_buff_idx := c, fetched_so_far := f\<rparr>"
    using getNextRow_frame by blast
  with a show "lookup_invariant rs'"
    by (simp add: lookup_invariant_def total_entries_def entries_before_def)
next
  fix rs'
  assume "permutation rs = [] \<and> updateStorageEntryCount rs n = Inr rs'"
  then show "lookup_invariant rs'"
    using lookup_invariant_updateStorageEntryCount by blast
qed

text \<open>The definitions a simplifier run unfolds to evaluate the lookup on an example.\<close>

lemmas example_count_defs =
  lookup_invariant_def total_entries_def entries_before_def example_ResultSet_def
  example_storage_def example_qmd_def getEntryCount_def setEntryCount_def
  getQueryDescriptionType_def updateStorageEntryCount_def updateEntryCount_def
  entryCount_def permuted_idx_def findStorage_def getStorageIndex_def

theorem entryCount_and_storage_lookup_witness:
  "lookup_invariant
     ((example_ResultSet Projection [(0, 10), (1, 11)] [[(2, 12)]])\<lparr>permutation := [2, 0, 1]\<rparr>)
   \<and> entryCount
       ((example_ResultSet Projection [(0, 10), (1, 11)] [[(2, 12)]])\<lparr>permutation := [2, 0, 1]\<rparr>)
       = 3
   \<and> (\<exists>slr. findStorage
        ((example_ResultSet Projection [(0, 10), (1, 11)] [[(2, 12)]])\<lparr>permutation := [2, 0, 1]\<rparr>)
        2 = Inr slr
        \<and> fixedup_entry_idx slr < getEntryCount (query_mem_desc (storage_ptr slr)))
   \<and> lookup_invariant
       (clearPermutation
         ((example_ResultSet Projection [(0, 10), (1, 11)] [[(2, 12)]])\<lparr>permutation := [2, 0, 1]\<rparr>))
   \<and> lookup_invariant
       (initStatus
         ((example_ResultSet Projection [(0, 10), (1, 11)] [[(2, 12)]])\<lparr>permutation := [2, 0, 1]\<rparr>))
   \<and> (\<exists>row rs'. getNextRow (example_Env 1)
          (example_ResultSet Projection [(0, 10), (1, 11)] []) False False = Inr (row, rs')
        \<and> lookup_invariant rs')
   \<and> (\<exists>rs'. updateStorageEntryCount (example_ResultSet Projection [(0, 10), (1, 11)] []) 1
               = Inr rs' \<and> lookup_invariant rs')"
proof -
  let ?rs = "(example_ResultSet Projection [(0, 10), (1, 11)] [[(2, 12)]])\<lparr>permutation := [2, 0, 1]\<rparr>"
  let ?plain = "example_ResultSet Projection [(0, 10), (1, 11)] []"
  let ?E = "example_Env 1 :: int Env"
  have inv: "lookup_invariant ?rs" by (simp add: example_count_defs)
  have n: "entryCount ?rs = 3" by (simp add: example_count_defs)
  have p: "permuted_idx ?rs 0 = Inr 2" by (simp add: example_count_defs)
  have upd: "\<exists>rs'. updateStorageEntryCount ?plain 1 = Inr rs'"
    by (simp add: example_count_defs)
  have p0: "permutation ?plain = []" by (simp add: example_ResultSet_def)
  have np: "entryCount ?plain = 2" by (simp add: example_count_defs)
  have invp: "lookup_invariant ?plain" by (simp add: example_count_defs)
  have cases2: "q = 0 \<or> q = 1" if "q < 2" for q :: nat
    using that by linarith
  have valid: "isRowAtEmpty ?E ?plain q = Inr False" if "q < 2" for q
    using cases2 [OF that] by (elim disjE) (simp_all add: example_rs_defs example_defs)
  have rows: "row_at ?E ?plain q False False = Inr [Decoded (10 + int q)]" if "q < 2" for q
    using cases2 [OF that] by (elim disjE) (simp_all add: example_rs_defs example_defs)
  have it: "iterable ?E ?plain False False"
    unfolding iterable_def np
    using valid rows by (auto simp: row_is_valid_def example_ResultSet_def)
  have fresh: "crt_row_buff_idx ?plain = 0" "fetched_so_far ?plain = 0"
    by (simp_all add: example_ResultSet_def)
  have nw: "unat (drop_first ?plain) + unat (keep_first ?plain) < 2 ^ 64"
    by (simp add: example_ResultSet_def)
  from getNextRows_fresh [OF it fresh nw, of 1]
  have nxt: "\<exists>row rs'. getNextRow ?E ?plain False False = Inr (row, rs')"
    by (auto split: sum.splits)
  note at_rs = entryCount_and_storage_lookup [of ?rs ?E False False 1]
  note at_plain = entryCount_and_storage_lookup [of ?plain ?E False False 1]
  from at_rs inv n p have "\<exists>slr. findStorage ?rs 2 = Inr slr
        \<and> fixedup_entry_idx slr < getEntryCount (query_mem_desc (storage_ptr slr))"
    by (metis zero_less_numeral sum.inject(2))
  moreover from at_rs inv have "lookup_invariant (clearPermutation ?rs)"
    "lookup_invariant (initStatus ?rs)" by blast+
  moreover from at_plain invp nxt
  have "\<exists>row rs'. getNextRow ?E ?plain False False = Inr (row, rs') \<and> lookup_invariant rs'"
    by blast
  moreover from at_plain p0 upd
  have "\<exists>rs'. updateStorageEntryCount ?plain 1 = Inr rs' \<and> lookup_invariant rs'" by blast
  ultimately show ?thesis using inv n by blast
qed

text \<open>
  C6 as stated covers every result set after every operation. A projection of two entries
  sorted into the permutation \<open>[1, 0]\<close> satisfies the condition above; after
  \<^verbatim>\<open>updateStorageEntryCount(1)\<close> its \<^verbatim>\<open>entryCount()\<close> is still 2, the size of the
  permutation, logical index 0 is entry 1, and the lookup of entry 1 fails, the only
  storage now holding one entry. Before the primary storage is allocated \<^verbatim>\<open>entryCount()\<close>
  is the descriptor's entry count and no index resolves.
\<close>

theorem entryCount_after_update_counterexample:
  "lookup_invariant ((example_ResultSet Projection [(0, 10), (1, 11)] [])\<lparr>permutation := [1, 0]\<rparr>)
   \<and> (\<exists>rs'. updateStorageEntryCount
               ((example_ResultSet Projection [(0, 10), (1, 11)] [])\<lparr>permutation := [1, 0]\<rparr>) 1
             = Inr rs'
           \<and> entryCount rs' = 2 \<and> permuted_idx rs' 0 = Inr 1
           \<and> findStorage rs' 1 = Inl CheckFailed)
   \<and> entryCount ((example_ResultSet Projection [(0, 10), (1, 11)] [])\<lparr>storage := None\<rparr>) = 2
   \<and> findStorage ((example_ResultSet Projection [(0, 10), (1, 11)] [])\<lparr>storage := None\<rparr>) 0
       = Inl NullPointer"
  by (simp add: example_count_defs)

end
